theory Spec2Isabelle
  imports Main "HOL-Library.Multiset" "HOL-Library.Signed_Division"
begin

section \<open>The single-core SJF routine (abhinav-daniel-eric-vin/sjf.c)\<close>

text \<open>
  \<^verbatim>\<open>struct process\<close> is declared in \<^verbatim>\<open>process.h\<close>, which is not among the sources; the
  record has the two fields that \<^verbatim>\<open>sjf\<close> reads and writes. The process array is a C
  array of pointers: an entry is \<open>None\<close> for \<^verbatim>\<open>NULL\<close>.
  The list holds the valid entries, indices \<open>0..len-1\<close>; an access at an index past
  the list is the fault \<open>OutOfRange\<close>, and following a \<^verbatim>\<open>NULL\<close> entry is the fault
  \<open>NullPointer\<close>. The parameter \<open>len\<close> stands for the element count the loop bounds
  are compared with.
\<close>

record process =
  remainingTime :: int
  finishTime :: int

datatype fault = OutOfRange nat | NullPointer nat | Uninitialised

definition proc_at :: "process option list \<Rightarrow> nat \<Rightarrow> fault + process" where
  "proc_at procArray i =
     (if i < length procArray
      then (case procArray ! i of None \<Rightarrow> Inl (NullPointer i) | Some p \<Rightarrow> Inr p)
      else Inl (OutOfRange i))"

text \<open>
  The selection loop, \<^verbatim>\<open>for (int i = 0; i <= len; i++)\<close>, with the loop variables
  \<open>shortest\<close> and \<open>pid\<close> (\<open>None\<close> while \<open>pid\<close> is not yet assigned).
\<close>

function sjf_scan ::
  "process option list \<Rightarrow> nat \<Rightarrow> nat \<Rightarrow> int \<Rightarrow> nat option \<Rightarrow> fault + (int \<times> nat option)" where
  "sjf_scan procArray len i shortest pid =
     (if i \<le> len
      then (case proc_at procArray i of
              Inl e \<Rightarrow> Inl e
            | Inr p \<Rightarrow>
                if remainingTime p \<le> shortest
                then sjf_scan procArray len (Suc i) (remainingTime p) (Some i)
                else sjf_scan procArray len (Suc i) shortest pid)
      else Inr (shortest, pid))"
  by pat_completeness auto
termination
  by (relation "measure (\<lambda>(procArray, len, i, shortest, pid). Suc len - i)") auto

declare sjf_scan.simps [simp del]

text \<open>The shifting loop, \<^verbatim>\<open>for (int i = 0; i < len; i++) procArray[i] = procArray[i+1]\<close>.\<close>

fun sjf_shift :: "process option list \<Rightarrow> nat list \<Rightarrow> fault + process option list" where
  "sjf_shift procArray [] = Inr procArray"
| "sjf_shift procArray (i # is) =
     (if Suc i < length procArray
      then sjf_shift (procArray[i := procArray ! Suc i]) is
      else Inl (OutOfRange (Suc i)))"

definition sjf :: "process option list \<Rightarrow> nat \<Rightarrow> int \<Rightarrow> fault + process option list" where
  "sjf procArray len globalTime =
     (case sjf_scan procArray len 0 2147483647 None of
        Inl e \<Rightarrow> Inl e
      | Inr (shortest, None) \<Rightarrow> Inl Uninitialised
      | Inr (shortest, Some pid) \<Rightarrow>
          (case proc_at procArray pid of
             Inl e \<Rightarrow> Inl e
           | Inr p \<Rightarrow>
               (case sjf_shift
                       (procArray[pid := Some (p\<lparr>finishTime := globalTime + remainingTime p,
                                                 remainingTime := 0\<rparr>)])
                       [0..<len] of
                  Inl e \<Rightarrow> Inl e
                | Inr shifted \<Rightarrow>
                    if len < length shifted then Inr (shifted[len := None])
                    else Inl (OutOfRange len))))"

section \<open>The multi-core simulator (josh-alex-zach-viraj): threads and queues\<close>

text \<open>
  \<^verbatim>\<open>sim.c\<close> and \<^verbatim>\<open>dispatch.c\<close> are the sources. The header \<^verbatim>\<open>sim.h\<close> that both include,
  with the types and the queue and core helpers they call, is not among them: each
  definition that stands for a part of it says so. C \<^verbatim>\<open>int\<close> values are modelled as
  unbounded integers. A queue is the list of its threads from head to tail, and a
  thread is held by value: the link field \<^verbatim>\<open>next\<close> of the C list is the list itself.
\<close>

text \<open>
  Modelled from the spec: the thread states of \<^verbatim>\<open>sim.h\<close> (New, Ready, Running, Waiting,
  Finished), named as \<^verbatim>\<open>sim.c\<close> names the three it uses.
\<close>

datatype ThreadState = ST_NEW | ST_READY | ST_RUNNING | ST_WAITING | ST_FINISHED

text \<open>
  Modelled from the spec: \<^verbatim>\<open>struct Thread\<close> of \<^verbatim>\<open>sim.h\<close>, with the fields that
  \<^verbatim>\<open>make_thread\<close> initialises.
\<close>

record Thread =
  tid :: int
  arrival_time :: int
  burst_time :: int
  remaining :: int
  state :: ThreadState
  unblocked_at :: int
  start_time :: int
  finish_time :: int
  wait_time :: int

type_synonym Queue = "Thread list"

type_synonym CPU = "Thread option list"

definition make_thread :: "int \<Rightarrow> int \<Rightarrow> int \<Rightarrow> Thread" where
  "make_thread tid0 arrival burst =
     \<lparr>tid = tid0, arrival_time = arrival, burst_time = burst, remaining = burst,
      state = ST_NEW, unblocked_at = - 1, start_time = - 1, finish_time = - 1,
      wait_time = 0\<rparr>"

text \<open>Modelled from the spec: \<^verbatim>\<open>q_init\<close> of \<^verbatim>\<open>sim.h\<close>, the empty queue.\<close>

definition q_init :: Queue where
  "q_init = []"

text \<open>Modelled from the spec: \<^verbatim>\<open>q_empty\<close> of \<^verbatim>\<open>sim.h\<close>.\<close>

definition q_empty :: "Queue \<Rightarrow> bool" where
  "q_empty q = (q = [])"

text \<open>Modelled from the spec: \<^verbatim>\<open>q_push\<close> of \<^verbatim>\<open>sim.h\<close>, append at the tail.\<close>

definition q_push :: "Queue \<Rightarrow> Thread \<Rightarrow> Queue" where
  "q_push q t = q @ [t]"

text \<open>
  Modelled from the spec: \<^verbatim>\<open>q_pop\<close> of \<^verbatim>\<open>sim.h\<close>, remove and return the head, or none
  (\<^verbatim>\<open>NULL\<close>) if the queue is empty.
\<close>

definition q_pop :: "Queue \<Rightarrow> (Thread \<times> Queue) option" where
  "q_pop q = (case q of [] \<Rightarrow> None | t # rest \<Rightarrow> Some (t, rest))"

text \<open>
  Modelled from the spec: the scan shared by \<^verbatim>\<open>q_pop_min_burst\<close> and
  \<^verbatim>\<open>q_pop_min_remaining\<close> of \<^verbatim>\<open>sim.h\<close>. It removes and returns the element with the
  smallest key, the first encountered on a tie, and keeps the order of the others; none
  if the queue is empty.
\<close>

fun pop_min_by :: "(Thread \<Rightarrow> int) \<Rightarrow> Queue \<Rightarrow> (Thread \<times> Queue) option" where
  "pop_min_by key [] = None"
| "pop_min_by key (t # q) =
     (case pop_min_by key q of
        None \<Rightarrow> Some (t, [])
      | Some (m, rest) \<Rightarrow> if key t \<le> key m then Some (t, q) else Some (m, t # rest))"

text \<open>Modelled from the spec: \<^verbatim>\<open>q_pop_min_burst\<close> of \<^verbatim>\<open>sim.h\<close>, keyed on the burst time.\<close>

definition q_pop_min_burst :: "Queue \<Rightarrow> (Thread \<times> Queue) option" where
  "q_pop_min_burst q = pop_min_by burst_time q"

text \<open>
  Modelled from the spec: \<^verbatim>\<open>q_pop_min_remaining\<close> of \<^verbatim>\<open>sim.h\<close>, keyed on the remaining
  time.
\<close>

definition q_pop_min_remaining :: "Queue \<Rightarrow> (Thread \<times> Queue) option" where
  "q_pop_min_remaining q = pop_min_by remaining q"

section \<open>The core array\<close>

text \<open>
  The cores are the list of their slots by core index, \<open>None\<close> for an idle slot
  (\<^verbatim>\<open>NULL\<close>); \<^verbatim>\<open>ncores\<close> is its length. The global clock \<^verbatim>\<open>SIM_TIME\<close> is passed to the
  operations that read it as \<open>now\<close>. An index returned as \<^verbatim>\<open>int\<close>, with \<^verbatim>\<open>-1\<close> for none,
  is an optional natural number.
\<close>

text \<open>Modelled from the spec: \<^verbatim>\<open>cpu_init\<close> of \<^verbatim>\<open>sim.h\<close>, \<open>ncores\<close> idle slots.\<close>

definition cpu_init :: "nat \<Rightarrow> CPU" where
  "cpu_init ncores = replicate ncores None"

text \<open>The slot \<^verbatim>\<open>cpu->core[i]\<close>; the callers only read indices below \<^verbatim>\<open>ncores\<close>.\<close>

definition core_at :: "CPU \<Rightarrow> nat \<Rightarrow> Thread option" where
  "core_at cpu i = (if i < length cpu then cpu ! i else None)"

text \<open>
  Modelled from the spec: \<^verbatim>\<open>cpu_first_idle\<close> of \<^verbatim>\<open>sim.h\<close>, the lowest index of an idle
  core, or none.
\<close>

fun cpu_first_idle :: "CPU \<Rightarrow> nat option" where
  "cpu_first_idle [] = None"
| "cpu_first_idle (None # cs) = Some 0"
| "cpu_first_idle (Some t # cs) = map_option Suc (cpu_first_idle cs)"

text \<open>
  Modelled from the spec: \<^verbatim>\<open>cpu_any_idle\<close> of \<^verbatim>\<open>sim.h\<close>, true iff at least one core is
  idle.
\<close>

definition cpu_any_idle :: "CPU \<Rightarrow> bool" where
  "cpu_any_idle cpu = (cpu_first_idle cpu \<noteq> None)"

text \<open>
  Modelled from the spec: \<^verbatim>\<open>cpu_bind_core\<close> of \<^verbatim>\<open>sim.h\<close>. It puts the thread in the
  slot, sets its state to Running and records its start time if that is unset.
\<close>

definition cpu_bind_core :: "int \<Rightarrow> CPU \<Rightarrow> nat \<Rightarrow> Thread \<Rightarrow> CPU" where
  "cpu_bind_core now cpu i t =
     cpu[i := Some (t\<lparr>state := ST_RUNNING,
                      start_time := (if start_time t < 0 then now else start_time t)\<rparr>)]"

text \<open>
  Modelled from the spec: \<^verbatim>\<open>cpu_bind_first_idle\<close> of \<^verbatim>\<open>sim.h\<close>, the binding to the first
  idle core. The callers test \<^verbatim>\<open>cpu_any_idle\<close> first.
\<close>

definition cpu_bind_first_idle :: "int \<Rightarrow> CPU \<Rightarrow> Thread \<Rightarrow> CPU" where
  "cpu_bind_first_idle now cpu t =
     (case cpu_first_idle cpu of None \<Rightarrow> cpu | Some i \<Rightarrow> cpu_bind_core now cpu i t)"

text \<open>
  Modelled from the spec: \<^verbatim>\<open>cpu_unbind_core\<close> of \<^verbatim>\<open>sim.h\<close>, which clears the slot and
  returns its prior occupant.
\<close>

definition cpu_unbind_core :: "CPU \<Rightarrow> nat \<Rightarrow> Thread option \<times> CPU" where
  "cpu_unbind_core cpu i = (core_at cpu i, cpu[i := None])"

text \<open>
  Modelled from the spec: \<^verbatim>\<open>preempt_to_ready\<close> of \<^verbatim>\<open>sim.h\<close>. The occupant of the core
  goes back to the tail of Ready with state Ready, its remaining time untouched.
\<close>

definition preempt_to_ready :: "CPU \<Rightarrow> nat \<Rightarrow> Queue \<Rightarrow> CPU \<times> Queue" where
  "preempt_to_ready cpu i ready =
     (case cpu_unbind_core cpu i of
        (None, cpu') \<Rightarrow> (cpu', ready)
      | (Some v, cpu') \<Rightarrow> (cpu', q_push ready (v\<lparr>state := ST_READY\<rparr>)))"

text \<open>
  Modelled from the spec: \<^verbatim>\<open>block_to_waiting\<close> of \<^verbatim>\<open>sim.h\<close>. The occupant of the core
  goes to the tail of Waiting with state Waiting and the given unblock time.
\<close>

definition block_to_waiting :: "CPU \<Rightarrow> nat \<Rightarrow> Queue \<Rightarrow> int \<Rightarrow> CPU \<times> Queue" where
  "block_to_waiting cpu c waiting unblock =
     (case cpu_unbind_core cpu c of
        (None, cpu') \<Rightarrow> (cpu', waiting)
      | (Some t, cpu') \<Rightarrow>
          (cpu', q_push waiting (t\<lparr>state := ST_WAITING, unblocked_at := unblock\<rparr>)))"

text \<open>
  Modelled from the spec: \<^verbatim>\<open>cpu_step\<close> of \<^verbatim>\<open>sim.h\<close>. Every bound thread loses one tick
  of remaining time, with a floor at 0, and the clock advances by one: what
  \<^verbatim>\<open>collect_completions\<close> then reads is the clock after the step, as its comment says.
\<close>

definition cpu_step :: "CPU \<Rightarrow> int \<Rightarrow> CPU \<times> int" where
  "cpu_step cpu now =
     (map (map_option (\<lambda>t. t\<lparr>remaining := max 0 (remaining t - 1)\<rparr>)) cpu, now + 1)"

text \<open>
  Modelled from the spec: \<^verbatim>\<open>waiting_io_resolve\<close> of \<^verbatim>\<open>sim.h\<close>. Every Waiting thread
  whose unblock time equals the clock moves to the tail of Ready, in queue order.
\<close>

definition waiting_io_resolve :: "Queue \<Rightarrow> Queue \<Rightarrow> int \<Rightarrow> Queue \<times> Queue" where
  "waiting_io_resolve waiting ready now =
     (filter (\<lambda>t. unblocked_at t \<noteq> now) waiting,
      ready @ map (\<lambda>t. t\<lparr>state := ST_READY\<rparr>) (filter (\<lambda>t. unblocked_at t = now) waiting))"

text \<open>
  Modelled from the spec: \<^verbatim>\<open>bump_queue_wait\<close> of \<^verbatim>\<open>sim.h\<close>, one more tick of wait time
  for every thread in Ready.
\<close>

definition bump_queue_wait :: "Queue \<Rightarrow> Queue" where
  "bump_queue_wait ready = map (\<lambda>t. t\<lparr>wait_time := wait_time t + 1\<rparr>) ready"

text \<open>The threads bound to cores, by core index.\<close>

fun occupants :: "CPU \<Rightarrow> Thread list" where
  "occupants [] = []"
| "occupants (None # cs) = occupants cs"
| "occupants (Some t # cs) = t # occupants cs"

text \<open>The record that a binding at clock \<open>now\<close> stores in the core slot.\<close>

definition bound_thread :: "int \<Rightarrow> Thread \<Rightarrow> Thread" where
  "bound_thread now t =
     t\<lparr>state := ST_RUNNING, start_time := (if start_time t < 0 then now else start_time t)\<rparr>"

section \<open>Dispatch policies (dispatch.c)\<close>

text \<open>Facts about the queue operations that the termination proofs of the loops need.\<close>

lemma q_pop_length: "q_pop q = Some (t, rest) \<Longrightarrow> length rest < length q"
  by (auto simp: q_pop_def split: list.splits)

lemma pop_min_by_None: "pop_min_by key q = None \<longleftrightarrow> q = []"
  by (cases q) (auto split: option.splits)

lemma pop_min_by_mset: "pop_min_by key q = Some (m, rest) \<Longrightarrow> mset q = add_mset m (mset rest)"
  by (induction q arbitrary: m rest) (auto simp: pop_min_by_None split: option.splits if_splits)

lemma pop_min_by_length: "pop_min_by key q = Some (m, rest) \<Longrightarrow> length q = Suc (length rest)"
  by (drule pop_min_by_mset, drule arg_cong [where f = size]) simp

lemma pop_min_by_least: "pop_min_by key q = Some (m, rest) \<Longrightarrow> x \<in> set rest \<Longrightarrow> key m \<le> key x"
  by (induction q arbitrary: m rest x) (fastforce split: option.splits if_splits dest: pop_min_by_mset[THEN arg_cong, where f=set_mset])+

text \<open>
  \<^verbatim>\<open>dispatch_fifo\<close> and \<^verbatim>\<open>dispatch_sjf\<close>: while a core is idle, pop (the head, or the
  smallest burst) and bind it to the first idle core; stop when the pop gives none.
\<close>

function dispatch_fifo :: "int \<Rightarrow> CPU \<Rightarrow> Queue \<Rightarrow> CPU \<times> Queue" where
  "dispatch_fifo now cpu ready =
     (if cpu_any_idle cpu
      then (case q_pop ready of
              None \<Rightarrow> (cpu, ready)
            | Some (t, ready') \<Rightarrow> dispatch_fifo now (cpu_bind_first_idle now cpu t) ready')
      else (cpu, ready))"
  by pat_completeness auto
termination
  by (relation "measure (\<lambda>(now, cpu, ready). length ready)") (auto dest: q_pop_length)

function dispatch_sjf :: "int \<Rightarrow> CPU \<Rightarrow> Queue \<Rightarrow> CPU \<times> Queue" where
  "dispatch_sjf now cpu ready =
     (if cpu_any_idle cpu
      then (case q_pop_min_burst ready of
              None \<Rightarrow> (cpu, ready)
            | Some (t, ready') \<Rightarrow> dispatch_sjf now (cpu_bind_first_idle now cpu t) ready')
      else (cpu, ready))"
  by pat_completeness auto
termination
  by (relation "measure (\<lambda>(now, cpu, ready). length ready)")
     (auto simp: q_pop_min_burst_def dest: pop_min_by_length)

text \<open>
  \<^verbatim>\<open>core_with_largest_remaining_above\<close>: the scan over the core indices with the loop
  variables \<^verbatim>\<open>best_core\<close> (\<open>None\<close> for \<^verbatim>\<open>-1\<close>) and \<^verbatim>\<open>best_rem\<close>, initially \<^verbatim>\<open>-1\<close>.
\<close>

definition largest_step :: "CPU \<Rightarrow> int \<Rightarrow> nat \<Rightarrow> nat option \<times> int \<Rightarrow> nat option \<times> int" where
  "largest_step cpu threshold i acc =
     (case acc of (best_core, best_rem) \<Rightarrow>
        (case core_at cpu i of
           None \<Rightarrow> (best_core, best_rem)
         | Some r \<Rightarrow>
             if remaining r > threshold \<and> remaining r > best_rem
             then (Some i, remaining r)
             else (best_core, best_rem)))"

definition core_with_largest_remaining_above :: "CPU \<Rightarrow> int \<Rightarrow> nat option" where
  "core_with_largest_remaining_above cpu threshold =
     fst (fold (largest_step cpu threshold) [0..<length cpu] (None, - 1))"

text \<open>\<^verbatim>\<open>dispatch_srtcf\<close>, first loop: fill the idle cores with the smallest-remaining jobs.\<close>

function srtcf_fill :: "int \<Rightarrow> CPU \<Rightarrow> Queue \<Rightarrow> CPU \<times> Queue" where
  "srtcf_fill now cpu ready =
     (if cpu_any_idle cpu
      then (case q_pop_min_remaining ready of
              None \<Rightarrow> (cpu, ready)
            | Some (t, ready') \<Rightarrow> srtcf_fill now (cpu_bind_first_idle now cpu t) ready')
      else (cpu, ready))"
  by pat_completeness auto
termination
  by (relation "measure (\<lambda>(now, cpu, ready). length ready)")
     (auto simp: q_pop_min_remaining_def dest: pop_min_by_length)

text \<open>
  \<^verbatim>\<open>dispatch_srtcf\<close>, second loop (\<^verbatim>\<open>for (;;)\<close>). The loop has two \<^verbatim>\<open>break\<close> statements;
  the result records which one was taken: \<open>ReadyEmpty\<close> for \<^verbatim>\<open>if (!best) break\<close> and
  \<open>NoVictim\<close> for the final put-back-and-stop. Its termination measure is the length
  of Ready, then the \<open>disorder\<close> of the cores: for every bound thread, the number of
  threads in the cores and in Ready with a strictly smaller remaining time.
\<close>

datatype srtcf_exit = ReadyEmpty | NoVictim

definition below :: "int \<Rightarrow> int list \<Rightarrow> nat" where
  "below v xs = length (filter (\<lambda>x. x < v) xs)"

definition disorder :: "CPU \<Rightarrow> Queue \<Rightarrow> nat" where
  "disorder cpu ready =
     sum_list (map (\<lambda>t. below (remaining t) (map remaining (occupants cpu @ ready)))
                   (occupants cpu))"

lemma largest_fold_sound:
  "n \<le> length cpu \<Longrightarrow>
   fold (largest_step cpu threshold) [0..<n] (None, - 1) = (Some i, br) \<Longrightarrow>
   i < n \<and> (\<exists>r. cpu ! i = Some r \<and> threshold < remaining r \<and> br = remaining r)"
proof (induction n arbitrary: i br)
  case 0
  then show ?case by simp
next
  case (Suc n)
  obtain bc0 br0 where prev: "fold (largest_step cpu threshold) [0..<n] (None, - 1) = (bc0, br0)"
    by (cases "fold (largest_step cpu threshold) [0..<n] (None, - 1)")
  from Suc.prems have n: "n < length cpu" by simp
  from Suc.prems(2) prev have step: "largest_step cpu threshold n (bc0, br0) = (Some i, br)"
    by simp
  show ?case
  proof (cases "cpu ! n")
    case None
    with step n have "bc0 = Some i" "br0 = br" by (auto simp: largest_step_def core_at_def)
    with Suc.IH [of i br] prev n show ?thesis by (auto simp: less_Suc_eq)
  next
    case (Some r)
    show ?thesis
    proof (cases "remaining r > threshold \<and> remaining r > br0")
      case True
      with step n Some show ?thesis by (auto simp: largest_step_def core_at_def)
    next
      case False
      with step n Some have "bc0 = Some i" "br0 = br"
        by (auto simp: largest_step_def core_at_def)
      with Suc.IH [of i br] prev n show ?thesis by (auto simp: less_Suc_eq)
    qed
  qed
qed

lemma largest_Some:
  "core_with_largest_remaining_above cpu threshold = Some i \<Longrightarrow>
   i < length cpu \<and> (\<exists>r. cpu ! i = Some r \<and> threshold < remaining r)"
proof -
  assume a: "core_with_largest_remaining_above cpu threshold = Some i"
  obtain bc br where f: "fold (largest_step cpu threshold) [0..<length cpu] (None, - 1) = (bc, br)"
    by (cases "fold (largest_step cpu threshold) [0..<length cpu] (None, - 1)")
  with a have "bc = Some i" by (simp add: core_with_largest_remaining_above_def)
  with f largest_fold_sound [of "length cpu" cpu threshold i br] show ?thesis by auto
qed

lemma occupants_update_mset:
  "i < length cpu \<Longrightarrow> cpu ! i = Some v \<Longrightarrow>
   mset (occupants (cpu[i := Some t])) = add_mset t (mset (occupants cpu) - {#v#})
   \<and> v \<in># mset (occupants cpu)"
proof (induction cpu arbitrary: i)
  case Nil
  then show ?case by simp
next
  case (Cons c cs)
  show ?case
  proof (cases i)
    case 0
    with Cons.prems show ?thesis by simp
  next
    case (Suc j)
    with Cons.prems Cons.IH [of j] show ?thesis
      by (cases c) (auto simp: add_mset_commute)
  qed
qed



lemma below_mset: "below v xs = size {#x \<in># mset xs. x < v#}"
  by (simp add: below_def flip: mset_filter size_mset)

lemma disorder_alt:
  "disorder cpu ready =
     (\<Sum>t \<in># mset (occupants cpu).
        size {#x \<in># image_mset remaining (mset (occupants cpu) + mset ready). x < remaining t#})"
  by (simp add: disorder_def below_mset flip: sum_mset_sum_list)

lemma size_filter_less_mono:
  fixes A :: "int multiset"
  assumes "a \<in># A" "a < b"
  shows "size {#x \<in># A. x < a#} < size {#x \<in># A. x < b#}"
proof -
  have eq: "{#x \<in># A. x < a#} = {#x \<in># {#x \<in># A. x < b#}. x < a#}"
    using assms(2) by (auto simp: filter_filter_mset intro: filter_mset_cong)
  have "a \<in># {#x \<in># A. x < b#}" using assms by simp
  then have "size {#x \<in># {#x \<in># A. x < b#}. x < a#} < size {#x \<in># A. x < b#}"
    by (rule size_filter_unsat_elem) simp
  with eq show ?thesis by simp
qed

lemma q_pop_min_remaining_length:
  "q_pop_min_remaining ready = Some (best, ready1) \<Longrightarrow> length ready = Suc (length ready1)"
  by (simp add: q_pop_min_remaining_def pop_min_by_length)

lemma preempt_step_decreases:
  assumes pop: "q_pop_min_remaining ready = Some (best, ready1)"
    and vic: "core_with_largest_remaining_above cpu (remaining best) = Some victim"
    and pre: "(cpu2, ready2) = preempt_to_ready cpu victim ready1"
  shows "length ready2 = length ready"
    and "disorder (cpu_bind_core now cpu2 victim best) ready2 < disorder cpu ready"
proof -
  from largest_Some [OF vic] obtain v where
    i: "victim < length cpu" and v: "cpu ! victim = Some v" and lt: "remaining best < remaining v"
    by auto
  define b' where "b' = best\<lparr>state := ST_RUNNING,
      start_time := (if start_time best < 0 then now else start_time best)\<rparr>"
  define v' where "v' = v\<lparr>state := ST_READY\<rparr>"
  from pre i v have c2: "cpu2 = cpu[victim := None]" and r2: "ready2 = ready1 @ [v']"
    by (auto simp: preempt_to_ready_def cpu_unbind_core_def core_at_def q_push_def v'_def)
  have bind: "cpu_bind_core now cpu2 victim best = cpu[victim := Some b']"
    by (simp add: cpu_bind_core_def c2 b'_def)
  from pop have R: "mset ready = add_mset best (mset ready1)"
    by (simp add: q_pop_min_remaining_def pop_min_by_mset)
  from q_pop_min_remaining_length [OF pop] show "length ready2 = length ready"
    by (simp add: r2)
  define O1 where "O1 = mset (occupants cpu) - {#v#}"
  from occupants_update_mset [OF i v, of b'] have
    O': "mset (occupants (cpu[victim := Some b'])) = add_mset b' O1"
    and O: "mset (occupants cpu) = add_mset v O1"
    by (auto simp: O1_def)
  have rb': "remaining b' = remaining best" and rv': "remaining v' = remaining v"
    by (simp_all add: b'_def v'_def)
  define A where "A = image_mset remaining (mset (occupants cpu) + mset ready)"
  have A': "image_mset remaining (mset (occupants (cpu[victim := Some b'])) + mset ready2) = A"
    by (simp add: A_def O O' R r2 rb' rv')
  have rb: "remaining best \<in># A" by (simp add: A_def R)
  have "disorder (cpu[victim := Some b']) ready2
          = size {#x \<in># A. x < remaining best#} + (\<Sum>t \<in># O1. size {#x \<in># A. x < remaining t#})"
    unfolding disorder_alt A' by (simp add: O' rb')
  also have "\<dots> < size {#x \<in># A. x < remaining v#} + (\<Sum>t \<in># O1. size {#x \<in># A. x < remaining t#})"
    using size_filter_less_mono [OF rb lt] by simp
  also have "\<dots> = disorder cpu ready"
    unfolding disorder_alt A_def [symmetric] by (simp add: O)
  finally show "disorder (cpu_bind_core now cpu2 victim best) ready2 < disorder cpu ready"
    by (simp add: bind)
qed

function srtcf_preempt :: "int \<Rightarrow> CPU \<Rightarrow> Queue \<Rightarrow> srtcf_exit \<times> CPU \<times> Queue" where
  "srtcf_preempt now cpu ready =
     (case q_pop_min_remaining ready of
        None \<Rightarrow> (ReadyEmpty, cpu, ready)
      | Some (best, ready1) \<Rightarrow>
          (case cpu_first_idle cpu of
             Some idle \<Rightarrow> srtcf_preempt now (cpu_bind_core now cpu idle best) ready1
           | None \<Rightarrow>
               (case core_with_largest_remaining_above cpu (remaining best) of
                  Some victim \<Rightarrow>
                    (case preempt_to_ready cpu victim ready1 of
                       (cpu2, ready2) \<Rightarrow>
                         srtcf_preempt now (cpu_bind_core now cpu2 victim best) ready2)
                | None \<Rightarrow> (NoVictim, cpu, q_push ready1 best))))"
  by pat_completeness auto
termination
  by (relation "measures [\<lambda>(now, cpu, ready). length ready, \<lambda>(now, cpu, ready). disorder cpu ready]")
     (auto dest: q_pop_min_remaining_length preempt_step_decreases)

declare dispatch_fifo.simps [simp del]
declare dispatch_sjf.simps [simp del]
declare srtcf_fill.simps [simp del]
declare srtcf_preempt.simps [simp del]

definition dispatch_srtcf :: "int \<Rightarrow> CPU \<Rightarrow> Queue \<Rightarrow> CPU \<times> Queue" where
  "dispatch_srtcf now cpu ready =
     (case srtcf_fill now cpu ready of
        (cpu1, ready1) \<Rightarrow> snd (srtcf_preempt now cpu1 ready1))"

datatype DispatchAlgo = DISP_FIFO | DISP_SJF | DISP_SRTCF

fun dispatch_get :: "DispatchAlgo \<Rightarrow> int \<Rightarrow> CPU \<Rightarrow> Queue \<Rightarrow> CPU \<times> Queue" where
  "dispatch_get DISP_FIFO = dispatch_fifo"
| "dispatch_get DISP_SJF = dispatch_sjf"
| "dispatch_get DISP_SRTCF = dispatch_srtcf"

section \<open>The simulation (sim.c)\<close>

definition workload_add :: "Queue \<Rightarrow> int \<Rightarrow> int \<Rightarrow> int \<Rightarrow> Queue" where
  "workload_add workload tid0 arrival burst = q_push workload (make_thread tid0 arrival burst)"

text \<open>A workload built, as \<^verbatim>\<open>main\<close> does, by one \<^verbatim>\<open>workload_add\<close> per (id, arrival, burst).\<close>

definition build_workload :: "(int \<times> int \<times> int) list \<Rightarrow> Queue" where
  "build_workload specs =
     fold (\<lambda>(tid0, arrival, burst) w. workload_add w tid0 arrival burst) specs q_init"

text \<open>
  \<^verbatim>\<open>workload_admit_tick\<close>: the first loop pops every thread of the workload and pushes it
  on Ready (state Ready) when it arrives now, on \<^verbatim>\<open>keep\<close> otherwise; the second loop
  moves \<^verbatim>\<open>keep\<close> back into the emptied workload.
\<close>

fun admit_scan :: "Queue \<Rightarrow> Queue \<Rightarrow> Queue \<Rightarrow> int \<Rightarrow> Queue \<times> Queue" where
  "admit_scan [] keep ready now = (keep, ready)"
| "admit_scan (t # workload) keep ready now =
     (if arrival_time t = now
      then admit_scan workload keep (q_push ready (t\<lparr>state := ST_READY\<rparr>)) now
      else admit_scan workload (q_push keep t) ready now)"

definition workload_admit_tick :: "Queue \<Rightarrow> Queue \<Rightarrow> int \<Rightarrow> Queue \<times> Queue" where
  "workload_admit_tick workload ready now =
     (if q_empty workload then (workload, ready)
      else (case admit_scan workload q_init ready now of
              (keep, ready') \<Rightarrow> (fold (\<lambda>t w. q_push w t) keep q_init, ready')))"

text \<open>
  \<^verbatim>\<open>collect_completions\<close>: for each core index in turn, a bound thread with no remaining
  time is unbound, marked Finished, stamped with the clock if its finish time is unset,
  and pushed on Finished.
\<close>

definition collect_core :: "int \<Rightarrow> nat \<Rightarrow> CPU \<times> Queue \<Rightarrow> CPU \<times> Queue" where
  "collect_core now i acc =
     (case acc of (cpu, finished) \<Rightarrow>
        (case core_at cpu i of
           None \<Rightarrow> (cpu, finished)
         | Some t \<Rightarrow>
             if remaining t = 0
             then (snd (cpu_unbind_core cpu i),
                   q_push finished
                     (t\<lparr>state := ST_FINISHED,
                        finish_time := (if finish_time t < 0 then now else finish_time t)\<rparr>))
             else (cpu, finished)))"

definition collect_completions :: "int \<Rightarrow> CPU \<Rightarrow> Queue \<Rightarrow> CPU \<times> Queue" where
  "collect_completions now cpu finished =
     fold (collect_core now) [0..<length cpu] (cpu, finished)"

definition all_done :: "Queue \<Rightarrow> Queue \<Rightarrow> CPU \<Rightarrow> bool" where
  "all_done ready waiting cpu =
     (if \<not> q_empty ready then False
      else if \<not> q_empty waiting then False
      else list_all (\<lambda>c. c = None) cpu)"

text \<open>
  Random interrupts. The C library's \<^verbatim>\<open>rand()\<close> is the sequence \<open>rand\<close> of the values it
  returns (non-negative), with the number of calls made so far threaded through; \<^verbatim>\<open>%\<close>
  is C's truncating remainder. The event log is output only and is not modelled.
\<close>

text \<open>
  Modelled from the spec: \<^verbatim>\<open>InterruptConfig\<close> of \<^verbatim>\<open>sim.h\<close>, with the fields that the
  initialiser in \<^verbatim>\<open>main\<close> sets and \<^verbatim>\<open>random_interrupts\<close> reads.
\<close>

record InterruptConfig =
  enable_random :: bool
  pct_io :: int
  io_min :: int
  io_max :: int

definition rnd :: "(nat \<Rightarrow> nat) \<Rightarrow> nat \<Rightarrow> int \<Rightarrow> int \<Rightarrow> int" where
  "rnd rand k a b = a + int (rand k) smod (b - a + 1)"

definition interrupt_core ::
  "InterruptConfig \<Rightarrow> (nat \<Rightarrow> nat) \<Rightarrow> int \<Rightarrow> nat \<Rightarrow> CPU \<times> Queue \<times> nat \<Rightarrow> CPU \<times> Queue \<times> nat" where
  "interrupt_core cfg rand now c acc =
     (case acc of (cpu, waiting, k) \<Rightarrow>
        (case core_at cpu c of
           None \<Rightarrow> (cpu, waiting, k)
         | Some t \<Rightarrow>
             (let r = int (rand k) smod 100 in
              if r < pct_io cfg
              then (let dur = rnd rand (k + 1) (io_min cfg) (io_max cfg);
                        unblock = now + dur
                    in (case block_to_waiting cpu c waiting unblock of
                          (cpu', waiting') \<Rightarrow> (cpu', waiting', k + 2)))
              else (cpu, waiting, k + 1))))"

definition random_interrupts ::
  "InterruptConfig option \<Rightarrow> (nat \<Rightarrow> nat) \<Rightarrow> int \<Rightarrow> CPU \<Rightarrow> Queue \<Rightarrow> nat \<Rightarrow> CPU \<times> Queue \<times> nat" where
  "random_interrupts cfg rand now cpu waiting k =
     (case cfg of
        None \<Rightarrow> (cpu, waiting, k)
      | Some c \<Rightarrow>
          if \<not> enable_random c then (cpu, waiting, k)
          else fold (interrupt_core c rand now) [0..<length cpu] (cpu, waiting, k))"

text \<open>
  The state of \<^verbatim>\<open>main\<close>: the global clock, the four queues, the cores, and the number
  of \<^verbatim>\<open>rand()\<close> calls made. \<open>sim_tick\<close> is the body of the main loop up to and including
  \<^verbatim>\<open>collect_completions\<close>; \<open>sim_loop\<close> is the loop around a body \<open>tick\<close>, left by the
  \<^verbatim>\<open>all_done\<close> test, and \<open>None\<close> when it is never left.
  \<^verbatim>\<open>main\<close> fixes the policy to \<^verbatim>\<open>DISP_SRTCF\<close> and the interrupts to disabled; both are
  parameters here.
\<close>

record Sim =
  sim_time :: int
  workload_q :: Queue
  ready_q :: Queue
  waiting_q :: Queue
  finished_q :: Queue
  cores :: CPU
  rand_calls :: nat

definition sim_tick :: "DispatchAlgo \<Rightarrow> InterruptConfig \<Rightarrow> (nat \<Rightarrow> nat) \<Rightarrow> Sim \<Rightarrow> Sim" where
  "sim_tick algo intr rand s =
     (case workload_admit_tick (workload_q s) (ready_q s) (sim_time s) of (wl, rd1) \<Rightarrow>
      case waiting_io_resolve (waiting_q s) rd1 (sim_time s) of (wt1, rd2) \<Rightarrow>
      case random_interrupts (Some intr) rand (sim_time s) (cores s) wt1 (rand_calls s) of
        (cp1, wt2, k) \<Rightarrow>
      case dispatch_get algo (sim_time s) cp1 rd2 of (cp2, rd3) \<Rightarrow>
      case cpu_step cp2 (sim_time s) of (cp3, now') \<Rightarrow>
      case collect_completions now' cp3 (finished_q s) of (cp4, fin) \<Rightarrow>
        \<lparr>sim_time = now', workload_q = wl, ready_q = bump_queue_wait rd3, waiting_q = wt2,
         finished_q = fin, cores = cp4, rand_calls = k\<rparr>)"

definition sim_done :: "Sim \<Rightarrow> bool" where
  "sim_done s = all_done (ready_q s) (waiting_q s) (cores s)"

partial_function (option) sim_loop :: "(Sim \<Rightarrow> Sim) \<Rightarrow> Sim \<Rightarrow> Sim option" where
  "sim_loop tick s = (if sim_done (tick s) then Some (tick s) else sim_loop tick (tick s))"

declare sim_loop.simps [code]

text \<open>
  The start of \<^verbatim>\<open>main\<close>: empty queues, \<open>ncores\<close> idle cores, the clock at zero, and the
  admission of the arrivals of tick 0 that precedes the loop.
\<close>

definition sim_start :: "nat \<Rightarrow> Queue \<Rightarrow> Sim" where
  "sim_start ncores workload =
     (case workload_admit_tick workload q_init 0 of
        (wl, rd) \<Rightarrow>
          \<lparr>sim_time = 0, workload_q = wl, ready_q = rd, waiting_q = q_init,
           finished_q = q_init, cores = cpu_init ncores, rand_calls = 0\<rparr>)"

definition simulate ::
  "DispatchAlgo \<Rightarrow> InterruptConfig \<Rightarrow> (nat \<Rightarrow> nat) \<Rightarrow> nat \<Rightarrow> Queue \<Rightarrow> Sim option" where
  "simulate algo intr rand ncores workload =
     sim_loop (sim_tick algo intr rand) (sim_start ncores workload)"

text \<open>The small preset workload of \<^verbatim>\<open>main\<close> and its interrupt configuration.\<close>

definition preset_small :: Queue where
  "preset_small =
     workload_add (workload_add (workload_add (workload_add q_init 1 0 5) 2 0 3) 3 2 6) 4 4 4"

definition intr_main :: InterruptConfig where
  "intr_main = \<lparr>enable_random = False, pct_io = 10, io_min = 2, io_max = 6\<rparr>"

section \<open>Auxiliary notions for the proofs\<close>

text \<open>The record that \<^verbatim>\<open>block_to_waiting\<close> pushes on Waiting for a thread \<open>t\<close>.\<close>

definition blocked :: "Thread \<Rightarrow> int \<Rightarrow> Thread" where
  "blocked t unblock = t\<lparr>state := ST_WAITING, unblocked_at := unblock\<rparr>"

text \<open>
  The loop invariant of \<^verbatim>\<open>random_interrupts\<close> after the cores below \<open>i\<close> have been visited,
  relative to the cores \<open>cpu\<close> and the Waiting queue \<open>waiting\<close> at entry: the cores from
  \<open>i\<close> on are untouched; Waiting has grown at its tail by blocked copies of bound
  threads; a visited core is unchanged, or idle with its thread in Waiting.
\<close>

definition frame_inv :: "CPU \<Rightarrow> Queue \<Rightarrow> nat \<Rightarrow> CPU \<times> Queue \<times> nat \<Rightarrow> bool" where
  "frame_inv cpu waiting i acc =
     (case acc of (c, w, k) \<Rightarrow>
        length c = length cpu
        \<and> (\<forall>j < length cpu. i \<le> j \<longrightarrow> c ! j = cpu ! j)
        \<and> (\<exists>moved. w = waiting @ moved
              \<and> (\<forall>m \<in> set moved. \<exists>t \<in> set (occupants cpu). \<exists>u. m = blocked t u))
        \<and> (\<forall>j < length cpu. j < i \<longrightarrow>
              c ! j = cpu ! j \<or> (c ! j = None \<and> (\<exists>t u. cpu ! j = Some t \<and> blocked t u \<in> set w))))"

text \<open>Applying a change \<open>g\<close> to every thread of a loop state of \<^verbatim>\<open>random_interrupts\<close>.\<close>

definition relabel :: "(Thread \<Rightarrow> Thread) \<Rightarrow> CPU \<times> Queue \<times> nat \<Rightarrow> CPU \<times> Queue \<times> nat" where
  "relabel g acc = (case acc of (c, w, k) \<Rightarrow> (map (map_option g) c, map g w, k))"

text \<open>
  The records that \<^verbatim>\<open>collect_completions\<close> pushes on Finished for a thread at clock
  \<open>now\<close>, and that \<^verbatim>\<open>cpu_step\<close> leaves in a core slot.
\<close>

definition finished_thread :: "int \<Rightarrow> Thread \<Rightarrow> Thread" where
  "finished_thread now t =
     t\<lparr>state := ST_FINISHED, finish_time := (if finish_time t < 0 then now else finish_time t)\<rparr>"

definition stepped :: "Thread \<Rightarrow> Thread" where
  "stepped t = t\<lparr>remaining := max 0 (remaining t - 1)\<rparr>"

text \<open>The slot that \<^verbatim>\<open>collect_completions\<close> leaves for a core.\<close>

definition keep_running :: "Thread option \<Rightarrow> Thread option" where
  "keep_running c = (case c of None \<Rightarrow> None | Some t \<Rightarrow> if remaining t = 0 then None else Some t)"

text \<open>
  The three loops that fill idle cores (\<^verbatim>\<open>dispatch_fifo\<close>, \<^verbatim>\<open>dispatch_sjf\<close> and the first
  loop of \<^verbatim>\<open>dispatch_srtcf\<close>) differ in the thread they pop only. \<open>fills\<close> describes
  what they share: a run stops when no core is idle or Ready is empty, and a step takes
  one thread out of Ready and binds it to the first idle core.
\<close>

inductive fills :: "int \<Rightarrow> CPU \<Rightarrow> Queue \<Rightarrow> CPU \<Rightarrow> Queue \<Rightarrow> bool" for now where
  stop: "\<not> cpu_any_idle cpu \<or> ready = [] \<Longrightarrow> fills now cpu ready cpu ready"
| step: "cpu_first_idle cpu = Some i \<Longrightarrow> mset ready = add_mset t (mset rest) \<Longrightarrow>
         fills now (cpu[i := Some (bound_thread now t)]) rest cpu' ready' \<Longrightarrow>
         fills now cpu ready cpu' ready'"

text \<open>
  A relation \<open>R\<close> between a thread before and after is \<open>pre_closed\<close> when it is a
  preorder and holds across every change that the phases of a tick before the step make
  to a thread (made Ready, bound, blocked, one tick of waiting accrued), and
  \<open>tick_closed\<close> when it also holds across the step and the completion.
\<close>

definition pre_closed :: "(Thread \<Rightarrow> Thread \<Rightarrow> bool) \<Rightarrow> int \<Rightarrow> bool" where
  "pre_closed R now \<longleftrightarrow>
     reflp R \<and> transp R
     \<and> (\<forall>t. R t (t\<lparr>state := ST_READY\<rparr>))
     \<and> (\<forall>t. R t (bound_thread now t))
     \<and> (\<forall>t u. R t (blocked t u))
     \<and> (\<forall>t. R t (t\<lparr>wait_time := wait_time t + 1\<rparr>))"

definition tick_closed :: "(Thread \<Rightarrow> Thread \<Rightarrow> bool) \<Rightarrow> int \<Rightarrow> bool" where
  "tick_closed R now \<longleftrightarrow>
     pre_closed R now
     \<and> (\<forall>t. R t (stepped t))
     \<and> (\<forall>t. R t (finished_thread (now + 1) t))"

text \<open>
  All threads of a state, each counted once for every place that holds it: the four
  queues and the core slots. The live threads leave out the Finished queue.
\<close>

definition all_threads :: "Sim \<Rightarrow> Thread multiset" where
  "all_threads s =
     mset (workload_q s) + mset (ready_q s) + mset (waiting_q s) + mset (finished_q s)
       + mset (occupants (cores s))"

definition live_threads :: "Sim \<Rightarrow> Thread multiset" where
  "live_threads s =
     mset (workload_q s) + mset (ready_q s) + mset (waiting_q s) + mset (occupants (cores s))"

text \<open>Relations between a thread before and after: identity, fields that only move one
  way (as the claim states it, and the form that is a preorder on all records), and work.\<close>

definition same_thread :: "Thread \<Rightarrow> Thread \<Rightarrow> bool" where
  "same_thread t t' \<longleftrightarrow> tid t' = tid t"

definition never_regresses :: "Thread \<Rightarrow> Thread \<Rightarrow> bool" where
  "never_regresses t t' \<longleftrightarrow>
     tid t' = tid t
     \<and> remaining t' \<le> remaining t
     \<and> wait_time t \<le> wait_time t'
     \<and> (0 \<le> start_time t \<longrightarrow> start_time t' = start_time t)
     \<and> (0 \<le> finish_time t \<longrightarrow> finish_time t' = finish_time t)"

definition evolves :: "Thread \<Rightarrow> Thread \<Rightarrow> bool" where
  "evolves t t' \<longleftrightarrow>
     tid t' = tid t
     \<and> (0 \<le> remaining t \<longrightarrow> 0 \<le> remaining t' \<and> remaining t' \<le> remaining t)
     \<and> wait_time t \<le> wait_time t'
     \<and> (0 \<le> start_time t \<longrightarrow> start_time t' = start_time t)
     \<and> (0 \<le> finish_time t \<longrightarrow> finish_time t' = finish_time t)"

definition same_work :: "Thread \<Rightarrow> Thread \<Rightarrow> bool" where
  "same_work t t' \<longleftrightarrow> remaining t' = remaining t"

text \<open>
  The termination measure of the simulation loop: the remaining work of the live
  threads, then the number of bound threads, then the ticks the Waiting threads still
  have to wait. \<open>sim_inv\<close> is what holds at every tick boundary: live threads have work
  left, no Waiting thread is due in the past, and there is at least one core.
\<close>

definition work :: "Thread multiset \<Rightarrow> int" where
  "work M = sum_mset (image_mset remaining M)"

definition pending :: "Sim \<Rightarrow> nat" where
  "pending s = sum_list (map (\<lambda>t. nat (unblocked_at t - sim_time s)) (waiting_q s))"

definition sim_inv :: "Sim \<Rightarrow> bool" where
  "sim_inv s \<longleftrightarrow>
     (\<forall>t \<in># live_threads s. 1 \<le> remaining t)
     \<and> (\<forall>t \<in> set (waiting_q s). sim_time s \<le> unblocked_at t)
     \<and> cores s \<noteq> []"

text \<open>
  The invariant of the two loops of \<^verbatim>\<open>dispatch_srtcf\<close>: a bound thread has a
  non-negative remaining time, or one that no Ready thread undercuts. The scan for a
  victim starts from \<^verbatim>\<open>best_rem = -1\<close>, so it sees exactly the bound threads of the first
  kind.
\<close>

definition srtcf_inv :: "CPU \<Rightarrow> Queue \<Rightarrow> bool" where
  "srtcf_inv cpu ready \<longleftrightarrow>
     (\<forall>T \<in> set (occupants cpu).
        0 \<le> remaining T \<or> (\<forall>R \<in> set ready. remaining T \<le> remaining R))"

section \<open>SJF: the scan runs past the valid entries\<close>

lemma sjf_scan_overrun:
  "i \<le> length procArray \<Longrightarrow> length procArray \<le> len \<Longrightarrow>
   \<forall>j < length procArray. procArray ! j \<noteq> None \<Longrightarrow>
   sjf_scan procArray len i shortest pid = Inl (OutOfRange (length procArray))"
proof (induction "length procArray - i" arbitrary: i shortest pid)
  case 0
  then have "i = length procArray" by simp
  with 0 show ?case
    by (subst sjf_scan.simps) (simp add: proc_at_def)
next
  case (Suc n)
  then have lt: "i < length procArray" by simp
  with Suc.prems obtain p where p: "procArray ! i = Some p" by auto
  have step: "\<And>s q. sjf_scan procArray len (Suc i) s q = Inl (OutOfRange (length procArray))"
    using Suc lt by simp
  from lt Suc.prems show ?case
    by (subst sjf_scan.simps) (simp add: proc_at_def p step)
qed

text \<open>
  Claim C10. When the valid entries of the process array are the indices \<open>0..len-1\<close>, all
  of them non-\<^verbatim>\<open>NULL\<close>, the selection scan of \<^verbatim>\<open>sjf\<close>, whose bound is \<^verbatim>\<open>i <= len\<close>, reaches
  index \<open>len\<close>: the access past the intended range is taken, for the scan from its
  initial loop state and so for \<^verbatim>\<open>sjf\<close> as a whole.
\<close>

theorem sjf_scan_reads_past_end:
  assumes "length procArray = len" and "\<forall>j < len. procArray ! j \<noteq> None"
  shows "sjf_scan procArray len 0 2147483647 None = Inl (OutOfRange len)
         \<and> sjf procArray len globalTime = Inl (OutOfRange len)"
proof -
  have "sjf_scan procArray len 0 2147483647 None = Inl (OutOfRange (length procArray))"
    by (rule sjf_scan_overrun) (use assms in auto)
  with assms show ?thesis by (simp add: sjf_def)
qed

theorem sjf_scan_reads_past_end_witness:
  "sjf [Some \<lparr>remainingTime = 3, finishTime = 0\<rparr>, Some \<lparr>remainingTime = 1, finishTime = 0\<rparr>] 2 7
     = Inl (OutOfRange 2)"
proof -
  have "\<forall>j < (2::nat). [Some \<lparr>remainingTime = 3, finishTime = 0\<rparr>,
                         Some \<lparr>remainingTime = 1, finishTime = 0\<rparr>] ! j \<noteq> None"
    by (simp add: less_Suc_eq numeral_2_eq_2)
  then show ?thesis
    using sjf_scan_reads_past_end
      [of "[Some \<lparr>remainingTime = 3, finishTime = 0\<rparr>, Some \<lparr>remainingTime = 1, finishTime = 0\<rparr>]"
          2 7]
    by simp
qed

section \<open>SRTCF: the preemption loop\<close>

lemma srtcf_preempt_total: "All srtcf_preempt_dom"
  by (relation "measures [\<lambda>(now, cpu, ready). length ready, \<lambda>(now, cpu, ready). disorder cpu ready]")
     (auto dest: q_pop_min_remaining_length preempt_step_decreases)

lemma occupants_set: "set (occupants cpu) = {t. Some t \<in> set cpu}"
proof (induction cpu)
  case Nil
  then show ?case by simp
next
  case (Cons c cs)
  then show ?case by (cases c) auto
qed

lemma occupants_nth: "i < length cpu \<Longrightarrow> cpu ! i = Some t \<Longrightarrow> t \<in> set (occupants cpu)"
  by (auto simp: occupants_set in_set_conv_nth)

lemma largest_fold_None:
  "n \<le> length cpu \<Longrightarrow>
   fold (largest_step cpu threshold) [0..<n] (None, - 1) = (None, br) \<Longrightarrow>
   br = - 1 \<and> (\<forall>i<n. \<forall>r. cpu ! i = Some r \<longrightarrow> \<not> (threshold < remaining r \<and> - 1 < remaining r))"
proof (induction n arbitrary: br)
  case 0
  then show ?case by simp
next
  case (Suc n)
  obtain bc0 br0 where prev: "fold (largest_step cpu threshold) [0..<n] (None, - 1) = (bc0, br0)"
    by (cases "fold (largest_step cpu threshold) [0..<n] (None, - 1)")
  from Suc.prems have n: "n < length cpu" by simp
  from Suc.prems(2) prev have step: "largest_step cpu threshold n (bc0, br0) = (None, br)"
    by simp
  then have same: "bc0 = None" "br0 = br"
    by (auto simp: largest_step_def split: option.splits if_splits)
  with Suc.IH [of br] prev n have
    ih: "br = - 1" "\<forall>i<n. \<forall>r. cpu ! i = Some r \<longrightarrow> \<not> (threshold < remaining r \<and> - 1 < remaining r)"
    by auto
  have "\<forall>r. cpu ! n = Some r \<longrightarrow> \<not> (threshold < remaining r \<and> - 1 < remaining r)"
    using step n same ih(1) by (auto simp: largest_step_def core_at_def split: if_splits)
  with ih show ?case by (auto simp: less_Suc_eq)
qed

lemma largest_None:
  assumes "core_with_largest_remaining_above cpu threshold = None"
    and "t \<in> set (occupants cpu)"
  shows "\<not> (threshold < remaining t \<and> - 1 < remaining t)"
proof -
  obtain bc br where f: "fold (largest_step cpu threshold) [0..<length cpu] (None, - 1) = (bc, br)"
    by (cases "fold (largest_step cpu threshold) [0..<length cpu] (None, - 1)")
  with assms(1) have "bc = None" by (simp add: core_with_largest_remaining_above_def)
  with f largest_fold_None [of "length cpu" cpu threshold br] have
    "\<forall>i<length cpu. \<forall>r. cpu ! i = Some r \<longrightarrow> \<not> (threshold < remaining r \<and> - 1 < remaining r)"
    by simp
  moreover from assms(2) obtain i where "i < length cpu" "cpu ! i = Some t"
    by (auto simp: occupants_set in_set_conv_nth)
  ultimately show ?thesis by blast
qed

lemma largest_None_intro:
  assumes "\<forall>t \<in> set (occupants cpu). remaining t \<le> threshold"
  shows "core_with_largest_remaining_above cpu threshold = None"
proof (cases "core_with_largest_remaining_above cpu threshold")
  case None
  then show ?thesis .
next
  case (Some i)
  from largest_Some [OF Some] obtain r where
    "i < length cpu" "cpu ! i = Some r" "threshold < remaining r" by auto
  with assms occupants_nth [of i cpu r] show ?thesis by force
qed

lemma pop_min_by_set: "pop_min_by key q = Some (m, rest) \<Longrightarrow> set q = insert m (set rest)"
  by (drule pop_min_by_mset, drule arg_cong [where f = set_mset]) simp

lemma srtcf_fill_no_idle:
  "srtcf_fill now cpu ready = (cpu1, ready1) \<Longrightarrow> ready1 \<noteq> [] \<Longrightarrow> cpu_first_idle cpu1 = None"
proof (induction now cpu ready arbitrary: cpu1 ready1 rule: srtcf_fill.induct)
  case (1 now cpu ready)
  show ?case
  proof (cases "cpu_any_idle cpu")
    case False
    with "1.prems" show ?thesis by (simp add: srtcf_fill.simps [of now cpu ready] cpu_any_idle_def)
  next
    case True
    show ?thesis
    proof (cases "q_pop_min_remaining ready")
      case None
      with True "1.prems" show ?thesis
        by (simp add: srtcf_fill.simps [of now cpu ready] q_pop_min_remaining_def pop_min_by_None)
    next
      case (Some p)
      obtain t rest where p: "p = (t, rest)" by (cases p)
      from "1.prems" True Some p have
        "srtcf_fill now (cpu_bind_first_idle now cpu t) rest = (cpu1, ready1)"
        by (simp add: srtcf_fill.simps [of now cpu ready])
      from "1.IH" [OF True Some p [symmetric] this "1.prems"(2)] show ?thesis .
    qed
  qed
qed

lemma cpu_bind_core_bound: "cpu_bind_core now cpu i t = cpu[i := Some (bound_thread now t)]"
  by (simp add: cpu_bind_core_def bound_thread_def)

lemma preempt_to_ready_Some:
  "i < length cpu \<Longrightarrow> cpu ! i = Some v \<Longrightarrow>
   preempt_to_ready cpu i ready = (cpu[i := None], ready @ [v\<lparr>state := ST_READY\<rparr>])"
  by (simp add: preempt_to_ready_def cpu_unbind_core_def core_at_def q_push_def)

lemma srtcf_preempt_cases [consumes 1, case_names ReadyEmpty NoVictim Idle Victim]:
  assumes run: "srtcf_preempt now cpu ready = res"
    and empty: "\<And>now cpu ready.
        q_pop_min_remaining ready = None \<Longrightarrow> P now cpu ready (ReadyEmpty, cpu, ready)"
    and novictim: "\<And>now cpu ready best ready1.
        q_pop_min_remaining ready = Some (best, ready1) \<Longrightarrow> cpu_first_idle cpu = None \<Longrightarrow>
        core_with_largest_remaining_above cpu (remaining best) = None \<Longrightarrow>
        P now cpu ready (NoVictim, cpu, q_push ready1 best)"
    and idle: "\<And>now cpu ready best ready1 idle res.
        q_pop_min_remaining ready = Some (best, ready1) \<Longrightarrow> cpu_first_idle cpu = Some idle \<Longrightarrow>
        srtcf_preempt now (cpu[idle := Some (bound_thread now best)]) ready1 = res \<Longrightarrow>
        P now (cpu[idle := Some (bound_thread now best)]) ready1 res \<Longrightarrow> P now cpu ready res"
    and victim: "\<And>now cpu ready best ready1 victim v res.
        q_pop_min_remaining ready = Some (best, ready1) \<Longrightarrow> cpu_first_idle cpu = None \<Longrightarrow>
        core_with_largest_remaining_above cpu (remaining best) = Some victim \<Longrightarrow>
        victim < length cpu \<Longrightarrow> cpu ! victim = Some v \<Longrightarrow> remaining best < remaining v \<Longrightarrow>
        srtcf_preempt now (cpu[victim := Some (bound_thread now best)])
             (ready1 @ [v\<lparr>state := ST_READY\<rparr>]) = res \<Longrightarrow>
        P now (cpu[victim := Some (bound_thread now best)]) (ready1 @ [v\<lparr>state := ST_READY\<rparr>]) res \<Longrightarrow>
        P now cpu ready res"
  shows "P now cpu ready res"
  using run
proof (induction now cpu ready arbitrary: res rule: srtcf_preempt.induct)
  case (1 now cpu ready)
  show ?case
  proof (cases "q_pop_min_remaining ready")
    case None
    with "1.prems" empty [OF None] show ?thesis by (auto simp: srtcf_preempt.simps [of now cpu ready])
  next
    case (Some p)
    obtain best ready1 where p: "p = (best, ready1)" by (cases p)
    note pop = Some [unfolded p]
    show ?thesis
    proof (cases "cpu_first_idle cpu")
      case (Some idle)
      from "1.prems" pop Some have
        r: "srtcf_preempt now (cpu[idle := Some (bound_thread now best)]) ready1 = res"
        by (simp add: srtcf_preempt.simps [of now cpu ready] cpu_bind_core_bound)
      from "1.IH"(2) [OF pop refl Some] r
      have "P now (cpu[idle := Some (bound_thread now best)]) ready1 res"
        by (simp add: cpu_bind_core_bound)
      with idle [OF pop Some r] show ?thesis by blast
    next
      case None
      note noidle = None
      show ?thesis
      proof (cases "core_with_largest_remaining_above cpu (remaining best)")
        case None
        with "1.prems" pop noidle novictim [OF pop noidle None] show ?thesis
          by (auto simp: srtcf_preempt.simps [of now cpu ready])
      next
        case (Some victim)
        from largest_Some [OF Some] obtain v where
          i: "victim < length cpu" and v: "cpu ! victim = Some v" and lt: "remaining best < remaining v"
          by auto
        note pre = preempt_to_ready_Some [OF i v, of ready1]
        from "1.prems" pop noidle Some pre have
          r: "srtcf_preempt now (cpu[victim := Some (bound_thread now best)])
                (ready1 @ [v\<lparr>state := ST_READY\<rparr>]) = res"
          by (simp add: srtcf_preempt.simps [of now cpu ready] cpu_bind_core_bound)
        from "1.IH"(1) [OF pop refl noidle Some pre [symmetric]] r
        have "P now (cpu[victim := Some (bound_thread now best)]) (ready1 @ [v\<lparr>state := ST_READY\<rparr>]) res"
          by (simp add: cpu_bind_core_bound)
        with victim [OF pop noidle Some i v lt r] show ?thesis by blast
      qed
    qed
  qed
qed

lemma q_pop_min_remaining_None: "q_pop_min_remaining ready = None \<longleftrightarrow> ready = []"
  by (simp add: q_pop_min_remaining_def pop_min_by_None)

lemma q_pop_min_remaining_set:
  "q_pop_min_remaining ready = Some (best, ready1) \<Longrightarrow> set ready = insert best (set ready1)"
  by (simp add: q_pop_min_remaining_def pop_min_by_set)

lemma q_pop_min_remaining_least:
  "q_pop_min_remaining ready = Some (best, ready1) \<Longrightarrow> r \<in> set ready \<Longrightarrow>
   remaining best \<le> remaining r"
  using pop_min_by_least [of remaining ready best ready1 r] pop_min_by_set [of remaining ready best ready1]
  by (auto simp: q_pop_min_remaining_def)

lemma srtcf_preempt_exit:
  assumes "srtcf_preempt now cpu ready = res"
  shows "case res of
           (ReadyEmpty, cpu', ready') \<Rightarrow> ready' = []
         | (NoVictim, cpu', ready') \<Rightarrow>
             (\<exists>best ready1. ready' = q_push ready1 best \<and> cpu_first_idle cpu' = None
                \<and> core_with_largest_remaining_above cpu' (remaining best) = None
                \<and> (\<forall>r \<in> set ready1. remaining best \<le> remaining r))"
  using assms
proof (induction rule: srtcf_preempt_cases)
  case (ReadyEmpty now cpu ready)
  then show ?case by (simp add: q_pop_min_remaining_None)
next
  case (NoVictim now cpu ready best ready1)
  then show ?case
    using q_pop_min_remaining_least [of ready best ready1] q_pop_min_remaining_set [of ready best ready1]
    by auto
next
  case (Idle now cpu ready best ready1 idle res)
  then show ?case by simp
next
  case (Victim now cpu ready best ready1 victim v res)
  then show ?case by simp
qed

text \<open>
  Claim C8, as amended. In the preemption loop, when a candidate is popped, no core is
  idle and no bound thread has a remaining time strictly greater than the candidate's,
  the loop stops through its last branch and the candidate is pushed back on Ready
  unchanged. The loop has a second exit: it also stops, through \<^verbatim>\<open>if (!best) break\<close>,
  when Ready is empty. Every run of the loop ends through one of the two: with Ready
  empty, or with the pushed-back candidate at the tail of Ready, no core idle, no victim
  for it, and no other Ready thread with a smaller remaining time. The phase is entered
  from the fill loop, which leaves no core idle unless it leaves Ready empty.
\<close>

theorem srtcf_preempt_exits:
  "(q_pop_min_remaining ready = Some (best, ready1) \<and> cpu_first_idle cpu = None
      \<and> (\<forall>T \<in> set (occupants cpu). remaining T \<le> remaining best)
      \<longrightarrow> srtcf_preempt now cpu ready = (NoVictim, cpu, q_push ready1 best))
   \<and> (case srtcf_preempt now cpu ready of
         (ReadyEmpty, cpu', ready') \<Rightarrow> ready' = []
       | (NoVictim, cpu', ready') \<Rightarrow>
           (\<exists>b r1. ready' = q_push r1 b \<and> cpu_first_idle cpu' = None
              \<and> core_with_largest_remaining_above cpu' (remaining b) = None
              \<and> (\<forall>r \<in> set r1. remaining b \<le> remaining r)))
   \<and> (srtcf_fill now cpu0 ready0 = (cpu, ready) \<and> ready \<noteq> [] \<longrightarrow> cpu_first_idle cpu = None)"
proof (intro conjI impI)
  assume "q_pop_min_remaining ready = Some (best, ready1) \<and> cpu_first_idle cpu = None
      \<and> (\<forall>T \<in> set (occupants cpu). remaining T \<le> remaining best)"
  then show "srtcf_preempt now cpu ready = (NoVictim, cpu, q_push ready1 best)"
    by (simp add: srtcf_preempt.simps [of now cpu ready] largest_None_intro)
next
  show "case srtcf_preempt now cpu ready of
         (ReadyEmpty, cpu', ready') \<Rightarrow> ready' = []
       | (NoVictim, cpu', ready') \<Rightarrow>
           (\<exists>b r1. ready' = q_push r1 b \<and> cpu_first_idle cpu' = None
              \<and> core_with_largest_remaining_above cpu' (remaining b) = None
              \<and> (\<forall>r \<in> set r1. remaining b \<le> remaining r))"
    by (rule srtcf_preempt_exit) (rule refl)
next
  assume "srtcf_fill now cpu0 ready0 = (cpu, ready) \<and> ready \<noteq> []"
  then show "cpu_first_idle cpu = None" by (blast intro: srtcf_fill_no_idle)
qed

theorem srtcf_preempt_exits_witness:
  "srtcf_preempt 7
     [Some \<lparr>tid = 1, arrival_time = 0, burst_time = 4, remaining = 2, state = ST_RUNNING,
            unblocked_at = - 1, start_time = 5, finish_time = - 1, wait_time = 5\<rparr>]
     [\<lparr>tid = 2, arrival_time = 1, burst_time = 5, remaining = 5, state = ST_READY,
        unblocked_at = - 1, start_time = - 1, finish_time = - 1, wait_time = 6\<rparr>,
      \<lparr>tid = 3, arrival_time = 2, burst_time = 3, remaining = 3, state = ST_READY,
        unblocked_at = - 1, start_time = - 1, finish_time = - 1, wait_time = 5\<rparr>]
   = (NoVictim,
      [Some \<lparr>tid = 1, arrival_time = 0, burst_time = 4, remaining = 2, state = ST_RUNNING,
             unblocked_at = - 1, start_time = 5, finish_time = - 1, wait_time = 5\<rparr>],
      [\<lparr>tid = 2, arrival_time = 1, burst_time = 5, remaining = 5, state = ST_READY,
         unblocked_at = - 1, start_time = - 1, finish_time = - 1, wait_time = 6\<rparr>,
       \<lparr>tid = 3, arrival_time = 2, burst_time = 3, remaining = 3, state = ST_READY,
         unblocked_at = - 1, start_time = - 1, finish_time = - 1, wait_time = 5\<rparr>])"
  using srtcf_preempt_exits
    [of "[\<lparr>tid = 2, arrival_time = 1, burst_time = 5, remaining = 5, state = ST_READY,
            unblocked_at = - 1, start_time = - 1, finish_time = - 1, wait_time = 6\<rparr>,
          \<lparr>tid = 3, arrival_time = 2, burst_time = 3, remaining = 3, state = ST_READY,
            unblocked_at = - 1, start_time = - 1, finish_time = - 1, wait_time = 5\<rparr>]"
        "\<lparr>tid = 3, arrival_time = 2, burst_time = 3, remaining = 3, state = ST_READY,
            unblocked_at = - 1, start_time = - 1, finish_time = - 1, wait_time = 5\<rparr>"
        "[\<lparr>tid = 2, arrival_time = 1, burst_time = 5, remaining = 5, state = ST_READY,
            unblocked_at = - 1, start_time = - 1, finish_time = - 1, wait_time = 6\<rparr>]"
        "[Some \<lparr>tid = 1, arrival_time = 0, burst_time = 4, remaining = 2, state = ST_RUNNING,
            unblocked_at = - 1, start_time = 5, finish_time = - 1, wait_time = 5\<rparr>]"
        7]
  by (simp add: q_pop_min_remaining_def q_push_def)

theorem srtcf_preempt_exits_counterexample:
  "srtcf_preempt 7
     [Some \<lparr>tid = 1, arrival_time = 0, burst_time = 4, remaining = 2, state = ST_RUNNING,
            unblocked_at = - 1, start_time = 5, finish_time = - 1, wait_time = 0\<rparr>]
     []
   = (ReadyEmpty,
      [Some \<lparr>tid = 1, arrival_time = 0, burst_time = 4, remaining = 2, state = ST_RUNNING,
             unblocked_at = - 1, start_time = 5, finish_time = - 1, wait_time = 0\<rparr>],
      [])"
  by (simp add: srtcf_preempt.simps q_pop_min_remaining_def)

section \<open>Random interrupts leave the work of a thread alone\<close>

lemma fold_upt_invariant:
  assumes "P 0 s0" and "\<And>i s. i < n \<Longrightarrow> P i s \<Longrightarrow> P (Suc i) (f i s)"
  shows "P n (fold f [0..<n] s0)"
  using assms(2)
proof (induction n)
  case 0
  with assms(1) show ?case by simp
next
  case (Suc n)
  from Suc.IH Suc.prems have "P n (fold f [0..<n] s0)" by simp
  with Suc.prems [of n "fold f [0..<n] s0"] show ?case by simp
qed

lemma fold_commute_map:
  assumes "\<And>x s. f x (h s) = h (f x s)"
  shows "fold f xs (h s) = h (fold f xs s)"
  by (induction xs arbitrary: s) (simp_all add: assms)

lemma block_to_waiting_Some:
  "c < length cpu \<Longrightarrow> cpu ! c = Some t \<Longrightarrow>
   block_to_waiting cpu c waiting unblock = (cpu[c := None], waiting @ [blocked t unblock])"
  by (simp add: block_to_waiting_def cpu_unbind_core_def core_at_def q_push_def blocked_def)

text \<open>What one pass of the loop body does at core \<open>c\<close>.\<close>

lemma interrupt_core_cases:
  assumes "c < length cpu"
  shows "interrupt_core cfg rand now c (cpu, waiting, k) = (cpu, waiting, k) \<and> cpu ! c = None
       \<or> interrupt_core cfg rand now c (cpu, waiting, k) = (cpu, waiting, k + 1) \<and> cpu ! c \<noteq> None
       \<or> (\<exists>t. cpu ! c = Some t \<and>
             interrupt_core cfg rand now c (cpu, waiting, k)
               = (cpu[c := None],
                  waiting @ [blocked t (now + rnd rand (k + 1) (io_min cfg) (io_max cfg))], k + 2))"
proof (cases "cpu ! c")
  case None
  with assms show ?thesis by (simp add: interrupt_core_def core_at_def)
next
  case (Some t)
  with assms show ?thesis
    by (simp add: interrupt_core_def core_at_def Let_def block_to_waiting_Some)
qed

lemma frame_inv_step:
  assumes i: "i < length cpu" and inv: "frame_inv cpu waiting i acc"
  shows "frame_inv cpu waiting (Suc i) (interrupt_core cfg rand now i acc)"
proof -
  obtain c w k where acc: "acc = (c, w, k)" by (cases acc)
  from inv acc have len: "length c = length cpu"
    and rest: "\<forall>j < length cpu. i \<le> j \<longrightarrow> c ! j = cpu ! j"
    and prev: "\<forall>j < length cpu. j < i \<longrightarrow>
              c ! j = cpu ! j \<or> (c ! j = None \<and> (\<exists>t u. cpu ! j = Some t \<and> blocked t u \<in> set w))"
    by (simp_all add: frame_inv_def)
  from inv acc obtain moved where w: "w = waiting @ moved"
    and mv: "\<forall>m \<in> set moved. \<exists>t \<in> set (occupants cpu). \<exists>u. m = blocked t u"
    by (auto simp: frame_inv_def)
  from i len have ic: "i < length c" by simp
  from rest i have same: "c ! i = cpu ! i" by simp
  from interrupt_core_cases [OF ic, of cfg rand now w k]
  consider (skip) k' where "interrupt_core cfg rand now i (c, w, k) = (c, w, k')"
    | (move) t u where "c ! i = Some t"
        "interrupt_core cfg rand now i (c, w, k) = (c[i := None], w @ [blocked t u], k + 2)"
    by blast
  then show ?thesis
  proof cases
    case skip
    have "frame_inv cpu waiting (Suc i) (c, w, k')"
      unfolding frame_inv_def using len rest prev w mv same
      by (auto simp: less_Suc_eq)
    with skip acc show ?thesis by simp
  next
    case move
    from move(1) same have cpu_i: "cpu ! i = Some t" by simp
    with i have t_in: "t \<in> set (occupants cpu)" by (rule occupants_nth)
    have "frame_inv cpu waiting (Suc i) (c[i := None], w @ [blocked t u], k + 2)"
      unfolding frame_inv_def
    proof (simp only: prod.case, intro conjI allI impI)
      show "length (c[i := None]) = length cpu" using len by simp
    next
      fix j assume "j < length cpu" "Suc i \<le> j"
      with rest show "c[i := None] ! j = cpu ! j" by simp
    next
      show "\<exists>moved. w @ [blocked t u] = waiting @ moved
              \<and> (\<forall>m \<in> set moved. \<exists>t \<in> set (occupants cpu). \<exists>u. m = blocked t u)"
        using w mv t_in by (intro exI [of _ "moved @ [blocked t u]"]) auto
    next
      fix j assume j: "j < length cpu" "j < Suc i"
      show "c[i := None] ! j = cpu ! j
            \<or> (c[i := None] ! j = None
                \<and> (\<exists>t' u'. cpu ! j = Some t' \<and> blocked t' u' \<in> set (w @ [blocked t u])))"
      proof (cases "j = i")
        case True
        with ic cpu_i show ?thesis by auto
      next
        case False
        with j prev have "c ! j = cpu ! j
            \<or> (c ! j = None \<and> (\<exists>t u. cpu ! j = Some t \<and> blocked t u \<in> set w))" by simp
        with False show ?thesis by auto
      qed
    qed
    with move acc show ?thesis by simp
  qed
qed

lemma frame_inv_fold:
  "frame_inv cpu waiting (length cpu)
     (fold (interrupt_core cfg rand now) [0..<length cpu] (cpu, waiting, k))"
proof (rule fold_upt_invariant [where P = "frame_inv cpu waiting"])
  show "frame_inv cpu waiting 0 (cpu, waiting, k)" by (simp add: frame_inv_def)
next
  fix i s assume "i < length cpu" "frame_inv cpu waiting i s"
  then show "frame_inv cpu waiting (Suc i) (interrupt_core cfg rand now i s)"
    by (rule frame_inv_step)
qed

lemma frame_inv_refl: "frame_inv cpu waiting (length cpu) (cpu, waiting, k)"
  by (simp add: frame_inv_def)

lemma random_interrupts_frame_inv:
  "frame_inv cpu waiting (length cpu) (random_interrupts cfg rand now cpu waiting k)"
  by (auto simp: random_interrupts_def frame_inv_refl frame_inv_fold split: option.splits)

lemma interrupt_core_relabel:
  "interrupt_core cfg rand now c (relabel (remaining_update f) acc)
     = relabel (remaining_update f) (interrupt_core cfg rand now c acc)"
proof -
  obtain cpu w k where acc: "acc = (cpu, w, k)" by (cases acc)
  show ?thesis
  proof (cases "core_at cpu c")
    case None
    then show ?thesis
      by (auto simp: acc relabel_def interrupt_core_def core_at_def split: if_splits)
  next
    case (Some t)
    then show ?thesis
      by (auto simp: acc relabel_def interrupt_core_def core_at_def Let_def block_to_waiting_def
          cpu_unbind_core_def q_push_def map_update split: if_splits)
  qed
qed

lemma random_interrupts_relabel:
  "random_interrupts cfg rand now (map (map_option (remaining_update f)) cpu)
       (map (remaining_update f) waiting) k
     = relabel (remaining_update f) (random_interrupts cfg rand now cpu waiting k)"
proof -
  have "fold (interrupt_core c rand now) [0..<length cpu] (relabel (remaining_update f) (cpu, waiting, k))
      = relabel (remaining_update f) (fold (interrupt_core c rand now) [0..<length cpu] (cpu, waiting, k))"
    for c
    by (rule fold_commute_map) (rule interrupt_core_relabel)
  then show ?thesis
    by (auto simp: random_interrupts_def relabel_def split: option.splits)
qed

text \<open>
  Claim C9. \<^verbatim>\<open>random_interrupts\<close> keeps the number of cores; the Waiting queue grows at
  its tail only, by threads taken from cores, each equal to the bound thread in every
  field but the state (now Waiting) and the unblock time, so \<open>remaining\<close>, \<open>burst_time\<close>,
  \<open>start_time\<close> and \<open>wait_time\<close> are as before; every core is either unchanged or idle
  with its former thread in Waiting. The subsystem does not read \<open>remaining\<close> either:
  changing the remaining times of all threads by any function \<open>f\<close> beforehand gives the
  same moves, the same unblock times and the same number of \<^verbatim>\<open>rand()\<close> calls.
\<close>

theorem random_interrupts_frame:
  assumes "random_interrupts cfg rand now cpu waiting k = (cpu', waiting', k')"
  shows "length cpu' = length cpu
    \<and> (\<exists>moved. waiting' = waiting @ moved
          \<and> (\<forall>m \<in> set moved. \<exists>t \<in> set (occupants cpu).
                m = t\<lparr>state := ST_WAITING, unblocked_at := unblocked_at m\<rparr>))
    \<and> (\<forall>i < length cpu. cpu' ! i = cpu ! i
          \<or> (cpu' ! i = None
              \<and> (\<exists>t u. cpu ! i = Some t \<and> t\<lparr>state := ST_WAITING, unblocked_at := u\<rparr> \<in> set waiting')))
    \<and> random_interrupts cfg rand now (map (map_option (remaining_update f)) cpu)
          (map (remaining_update f) waiting) k
        = (map (map_option (remaining_update f)) cpu', map (remaining_update f) waiting', k')"
proof -
  from random_interrupts_frame_inv [of cpu waiting cfg rand now k] assms
  have inv: "frame_inv cpu waiting (length cpu) (cpu', waiting', k')" by simp
  then obtain moved where w: "waiting' = waiting @ moved"
    and mv: "\<forall>m \<in> set moved. \<exists>t \<in> set (occupants cpu). \<exists>u. m = blocked t u"
    by (auto simp: frame_inv_def)
  have "\<forall>m \<in> set moved. \<exists>t \<in> set (occupants cpu).
          m = t\<lparr>state := ST_WAITING, unblocked_at := unblocked_at m\<rparr>"
  proof
    fix m assume "m \<in> set moved"
    with mv obtain t u where "t \<in> set (occupants cpu)" "m = blocked t u" by blast
    then show "\<exists>t \<in> set (occupants cpu). m = t\<lparr>state := ST_WAITING, unblocked_at := unblocked_at m\<rparr>"
      by (intro bexI [of _ t]) (simp_all add: blocked_def)
  qed
  moreover from inv have "length cpu' = length cpu"
    and "\<forall>i < length cpu. cpu' ! i = cpu ! i
          \<or> (cpu' ! i = None
              \<and> (\<exists>t u. cpu ! i = Some t \<and> t\<lparr>state := ST_WAITING, unblocked_at := u\<rparr> \<in> set waiting'))"
    by (simp_all add: frame_inv_def blocked_def)
  moreover from random_interrupts_relabel [of cfg rand now f cpu waiting k] assms
  have "random_interrupts cfg rand now (map (map_option (remaining_update f)) cpu)
          (map (remaining_update f) waiting) k
        = (map (map_option (remaining_update f)) cpu', map (remaining_update f) waiting', k')"
    by (simp add: relabel_def)
  ultimately show ?thesis using w by blast
qed

theorem random_interrupts_frame_witness:
  "random_interrupts (Some \<lparr>enable_random = True, pct_io = 50, io_min = 2, io_max = 6\<rparr>)
     (\<lambda>k. [17, 9, 80, 3] ! k) 4
     [Some \<lparr>tid = 1, arrival_time = 0, burst_time = 9, remaining = 5 + 100, state = ST_RUNNING,
            unblocked_at = - 1, start_time = 0, finish_time = - 1, wait_time = 0\<rparr>,
      None,
      Some \<lparr>tid = 2, arrival_time = 1, burst_time = 3, remaining = 2 + 100, state = ST_RUNNING,
            unblocked_at = - 1, start_time = 3, finish_time = - 1, wait_time = 2\<rparr>]
     [] 0
   = ([None, None,
       Some \<lparr>tid = 2, arrival_time = 1, burst_time = 3, remaining = 2 + 100, state = ST_RUNNING,
             unblocked_at = - 1, start_time = 3, finish_time = - 1, wait_time = 2\<rparr>],
      [\<lparr>tid = 1, arrival_time = 0, burst_time = 9, remaining = 5 + 100, state = ST_WAITING,
         unblocked_at = 10, start_time = 0, finish_time = - 1, wait_time = 0\<rparr>],
      3)"
proof -
  have run: "random_interrupts (Some \<lparr>enable_random = True, pct_io = 50, io_min = 2, io_max = 6\<rparr>)
     (\<lambda>k. [17, 9, 80, 3] ! k) 4
     [Some \<lparr>tid = 1, arrival_time = 0, burst_time = 9, remaining = 5, state = ST_RUNNING,
            unblocked_at = - 1, start_time = 0, finish_time = - 1, wait_time = 0\<rparr>,
      None,
      Some \<lparr>tid = 2, arrival_time = 1, burst_time = 3, remaining = 2, state = ST_RUNNING,
            unblocked_at = - 1, start_time = 3, finish_time = - 1, wait_time = 2\<rparr>]
     [] 0
   = ([None, None,
       Some \<lparr>tid = 2, arrival_time = 1, burst_time = 3, remaining = 2, state = ST_RUNNING,
             unblocked_at = - 1, start_time = 3, finish_time = - 1, wait_time = 2\<rparr>],
      [\<lparr>tid = 1, arrival_time = 0, burst_time = 9, remaining = 5, state = ST_WAITING,
         unblocked_at = 10, start_time = 0, finish_time = - 1, wait_time = 0\<rparr>],
      3)"
    by code_simp
  from random_interrupts_frame [OF run, where f = "\<lambda>r. r + 100"] show ?thesis by simp
qed

section \<open>What one tick does to the threads\<close>

text \<open>
  Each phase of a tick relates the multiset of threads it works on before to the one
  after, thread by thread, for every relation closed under the changes the phase makes.
\<close>

lemma rel_mset_plus:
  assumes "rel_mset R A B" "rel_mset R C D"
  shows "rel_mset R (A + C) (B + D)"
proof -
  from assms obtain as bs cs ds where
    "mset as = A" "mset bs = B" "list_all2 R as bs" "mset cs = C" "mset ds = D" "list_all2 R cs ds"
    unfolding rel_mset_def by blast
  then have "mset (as @ cs) = A + C" "mset (bs @ ds) = B + D" "list_all2 R (as @ cs) (bs @ ds)"
    by (auto intro: list_all2_appendI)
  then show ?thesis unfolding rel_mset_def by blast
qed

lemma rel_mset_map:
  assumes "\<And>t. t \<in> set xs \<Longrightarrow> R t (f t)"
  shows "rel_mset R (mset xs) (mset (map f xs))"
proof -
  have "list_all2 R xs (map f xs)"
    using assms by (simp add: list_all2_map2 list.rel_refl_strong)
  then show ?thesis unfolding rel_mset_def by blast
qed

lemma rel_mset_trans:
  assumes "transp R" "rel_mset R A B" "rel_mset R B C"
  shows "rel_mset R A C"
  using multiset.rel_transp [OF assms(1)] assms(2,3) by (rule transpD)

lemma rel_mset_same: "reflp R \<Longrightarrow> rel_mset R A A"
  by (rule multiset.rel_refl) (simp add: reflpD)

lemma rel_mset_ball:
  assumes "rel_mset R A B" "\<forall>x \<in># A. P x" "\<And>x y. R x y \<Longrightarrow> P x \<Longrightarrow> Q y"
  shows "\<forall>y \<in># B. Q y"
proof -
  from assms(1) obtain as bs where ab: "mset as = A" "mset bs = B" "list_all2 R as bs"
    unfolding rel_mset_def by blast
  show ?thesis
  proof
    fix y assume "y \<in># B"
    with ab obtain i where i: "i < length bs" "bs ! i = y"
      by (metis in_set_conv_nth set_mset_mset)
    with ab(3) have "R (as ! i) y" "i < length as"
      by (auto simp: list_all2_conv_all_nth)
    moreover from this ab(1) assms(2) have "P (as ! i)"
      by (metis nth_mem set_mset_mset)
    ultimately show "Q y" by (blast intro: assms(3))
  qed
qed

lemma rel_mset_image:
  assumes "rel_mset (\<lambda>x y. f x = g y) A B"
  shows "image_mset f A = image_mset g B"
proof -
  from assms obtain as bs where ab: "mset as = A" "mset bs = B" "list_all2 (\<lambda>x y. f x = g y) as bs"
    unfolding rel_mset_def by blast
  from ab(3) have "map f as = map g bs"
    by (induction as bs rule: list_all2_induct) auto
  with ab(1,2) show ?thesis by (metis mset_map)
qed

lemma admit_scan_eq:
  "admit_scan w keep r now =
     (keep @ filter (\<lambda>t. arrival_time t \<noteq> now) w,
      r @ map (\<lambda>t. t\<lparr>state := ST_READY\<rparr>) (filter (\<lambda>t. arrival_time t = now) w))"
  by (induction w arbitrary: keep r) (simp_all add: q_push_def)

lemma fold_q_push: "fold (\<lambda>t w. q_push w t) xs acc = acc @ xs"
  by (induction xs arbitrary: acc) (simp_all add: q_push_def)

lemma workload_admit_tick_eq:
  "workload_admit_tick w r now =
     (filter (\<lambda>t. arrival_time t \<noteq> now) w,
      r @ map (\<lambda>t. t\<lparr>state := ST_READY\<rparr>) (filter (\<lambda>t. arrival_time t = now) w))"
  by (simp add: workload_admit_tick_def admit_scan_eq fold_q_push q_init_def q_empty_def)

lemma split_rel:
  assumes refl: "reflp R" and upd: "\<And>t. R t (f t)"
  shows "rel_mset R (mset xs + mset r) (mset (filter (\<lambda>t. \<not> P t) xs) + mset (r @ map f (filter P xs)))"
proof -
  have a: "rel_mset R (mset (filter P xs)) (mset (map f (filter P xs)))"
    by (rule rel_mset_map) (rule upd)
  have b: "rel_mset R (mset (filter (\<lambda>t. \<not> P t) xs) + mset r) (mset (filter (\<lambda>t. \<not> P t) xs) + mset r)"
    by (rule rel_mset_same [OF refl])
  have c: "mset xs = mset (filter (\<lambda>t. \<not> P t) xs) + mset (filter P xs)"
    by (induction xs) auto
  have "mset xs + mset r = mset (filter (\<lambda>t. \<not> P t) xs) + mset r + mset (filter P xs)"
    by (subst c) (simp only: add.assoc add.commute [of "mset r"])
  moreover have "mset (filter (\<lambda>t. \<not> P t) xs) + mset (r @ map f (filter P xs))
      = mset (filter (\<lambda>t. \<not> P t) xs) + mset r + mset (map f (filter P xs))"
    by (simp only: mset_append add.assoc)
  ultimately show ?thesis using rel_mset_plus [OF b a] by (simp only:)
qed

lemma admit_rel:
  assumes "pre_closed R now" "workload_admit_tick w r now = (w', r')"
  shows "rel_mset R (mset w + mset r) (mset w' + mset r')"
proof -
  from assms(1) have "reflp R" "\<And>t. R t (t\<lparr>state := ST_READY\<rparr>)" by (simp_all add: pre_closed_def)
  note rel = split_rel [of R "\<lambda>t. t\<lparr>state := ST_READY\<rparr>" w r "\<lambda>t. arrival_time t = now", OF this]
  from assms(2) have "w' = filter (\<lambda>t. arrival_time t \<noteq> now) w"
    and "r' = r @ map (\<lambda>t. t\<lparr>state := ST_READY\<rparr>) (filter (\<lambda>t. arrival_time t = now) w)"
    by (simp_all add: workload_admit_tick_eq)
  with rel show ?thesis by (simp only:)
qed

lemma resolve_rel:
  assumes "pre_closed R now" "waiting_io_resolve wt r now = (wt', r')"
  shows "rel_mset R (mset wt + mset r) (mset wt' + mset r')"
proof -
  from assms(1) have "reflp R" "\<And>t. R t (t\<lparr>state := ST_READY\<rparr>)" by (simp_all add: pre_closed_def)
  note rel = split_rel [of R "\<lambda>t. t\<lparr>state := ST_READY\<rparr>" wt r "\<lambda>t. unblocked_at t = now", OF this]
  from assms(2) have "wt' = filter (\<lambda>t. unblocked_at t \<noteq> now) wt"
    and "r' = r @ map (\<lambda>t. t\<lparr>state := ST_READY\<rparr>) (filter (\<lambda>t. unblocked_at t = now) wt)"
    by (simp_all add: waiting_io_resolve_def)
  with rel show ?thesis by (simp only:)
qed

lemma bump_rel:
  assumes "pre_closed R now"
  shows "rel_mset R (mset r) (mset (bump_queue_wait r))"
  unfolding bump_queue_wait_def using assms by (intro rel_mset_map) (simp add: pre_closed_def)

lemma occupants_clear_mset:
  "i < length cpu \<Longrightarrow> cpu ! i = Some v \<Longrightarrow>
   add_mset v (mset (occupants (cpu[i := None]))) = mset (occupants cpu)"
proof (induction cpu arbitrary: i)
  case Nil
  then show ?case by simp
next
  case (Cons c cs)
  show ?case
  proof (cases i)
    case 0
    with Cons.prems show ?thesis by simp
  next
    case (Suc j)
    with Cons.prems Cons.IH [of j] show ?thesis by (cases c) auto
  qed
qed

lemma occupants_fill_mset:
  "i < length cpu \<Longrightarrow> cpu ! i = None \<Longrightarrow>
   mset (occupants (cpu[i := Some t])) = add_mset t (mset (occupants cpu))"
proof (induction cpu arbitrary: i)
  case Nil
  then show ?case by simp
next
  case (Cons c cs)
  show ?case
  proof (cases i)
    case 0
    with Cons.prems show ?thesis by simp
  next
    case (Suc j)
    with Cons.prems Cons.IH [of j] show ?thesis by (cases c) auto
  qed
qed

lemma cpu_first_idle_Some: "cpu_first_idle cpu = Some i \<Longrightarrow> i < length cpu \<and> cpu ! i = None"
proof (induction cpu arbitrary: i)
  case Nil
  then show ?case by simp
next
  case (Cons c cs)
  then show ?case by (cases c) auto
qed

lemma interrupts_rel:
  assumes cl: "pre_closed R now"
    and run: "random_interrupts cfg rand now cpu wt k = (cpu', wt', k')"
  shows "length cpu' = length cpu
         \<and> rel_mset R (mset (occupants cpu) + mset wt) (mset (occupants cpu') + mset wt')"
proof -
  from cl have refl: "reflp R" and trans: "transp R" and blk: "\<And>t u. R t (blocked t u)"
    by (simp_all add: pre_closed_def)
  let ?P = "\<lambda>(i::nat) (acc :: CPU \<times> Queue \<times> nat). case acc of (c, w, k) \<Rightarrow> length c = length cpu
      \<and> rel_mset R (mset (occupants cpu) + mset wt) (mset (occupants c) + mset w)"
  have fold: "?P (length cpu) (fold (interrupt_core c0 rand now) [0..<length cpu] (cpu, wt, k))" for c0
  proof (rule fold_upt_invariant [where P = ?P])
    show "?P 0 (cpu, wt, k)" using rel_mset_same [OF refl] by simp
  next
    fix i acc assume i: "i < length cpu" and inv: "?P i acc"
    obtain c w k where acc: "acc = (c, w, k)" by (cases acc)
    from inv acc have len: "length c = length cpu"
      and rel: "rel_mset R (mset (occupants cpu) + mset wt) (mset (occupants c) + mset w)"
      by simp_all
    from i len have ic: "i < length c" by simp
    from interrupt_core_cases [OF ic, of c0 rand now w k]
    consider (skip) k' where "interrupt_core c0 rand now i (c, w, k) = (c, w, k')"
      | (move) t u where "c ! i = Some t"
          "interrupt_core c0 rand now i (c, w, k) = (c[i := None], w @ [blocked t u], k + 2)"
      by blast
    then show "?P (Suc i) (interrupt_core c0 rand now i acc)"
    proof cases
      case skip
      with acc len rel show ?thesis by simp
    next
      case move
      from occupants_clear_mset [OF ic move(1)]
      have occ: "mset (occupants c) = add_mset t (mset (occupants (c[i := None])))" by simp
      have "rel_mset R (add_mset t (mset (occupants (c[i := None])) + mset w))
                       (add_mset (blocked t u) (mset (occupants (c[i := None])) + mset w))"
        by (rule rel_mset_Plus [OF blk rel_mset_same [OF refl]])
      then have "rel_mset R (mset (occupants c) + mset w)
                            (mset (occupants (c[i := None])) + mset (w @ [blocked t u]))"
        by (simp add: occ)
      with rel have "rel_mset R (mset (occupants cpu) + mset wt)
                            (mset (occupants (c[i := None])) + mset (w @ [blocked t u]))"
        by (rule rel_mset_trans [OF trans])
      with move acc len show ?thesis by simp
    qed
  qed
  show ?thesis
  proof (cases cfg)
    case None
    with run rel_mset_same [OF refl] show ?thesis by (auto simp: random_interrupts_def)
  next
    case (Some c0)
    show ?thesis
    proof (cases "enable_random c0")
      case False
      with Some run rel_mset_same [OF refl] show ?thesis by (auto simp: random_interrupts_def)
    next
      case True
      with Some run fold [of c0] show ?thesis by (simp add: random_interrupts_def)
    qed
  qed
qed

lemma fills_stepI:
  assumes "cpu_any_idle cpu" "mset ready = add_mset t (mset rest)"
    and "fills now (cpu_bind_first_idle now cpu t) rest cpu' ready'"
  shows "fills now cpu ready cpu' ready'"
proof -
  from assms(1) obtain i where i: "cpu_first_idle cpu = Some i"
    by (auto simp: cpu_any_idle_def)
  with assms(3) have "fills now (cpu[i := Some (bound_thread now t)]) rest cpu' ready'"
    by (simp add: cpu_bind_first_idle_def cpu_bind_core_bound)
  with i assms(2) show ?thesis by (rule fills.step)
qed

lemma dispatch_fifo_fills:
  "dispatch_fifo now cpu ready = (cpu', ready') \<Longrightarrow> fills now cpu ready cpu' ready'"
proof (induction now cpu ready rule: dispatch_fifo.induct)
  case (1 now cpu ready)
  show ?case
  proof (cases "cpu_any_idle cpu")
    case False
    with "1.prems" show ?thesis by (auto simp: dispatch_fifo.simps [of now cpu ready] intro: fills.stop)
  next
    case True
    show ?thesis
    proof (cases "q_pop ready")
      case None
      then have "ready = []" by (simp add: q_pop_def split: list.splits)
      moreover from None True "1.prems" have "cpu' = cpu" "ready' = ready"
        by (simp_all add: dispatch_fifo.simps [of now cpu ready])
      ultimately show ?thesis by (auto intro: fills.stop)
    next
      case (Some p)
      obtain t rest where p: "p = (t, rest)" by (cases p)
      from Some p have r: "mset ready = add_mset t (mset rest)"
        by (auto simp: q_pop_def split: list.splits)
      from "1.prems" True Some p have
        "dispatch_fifo now (cpu_bind_first_idle now cpu t) rest = (cpu', ready')"
        by (simp add: dispatch_fifo.simps [of now cpu ready])
      from "1.IH" [OF True Some p [symmetric] this] True r show ?thesis
        by (rule fills_stepI [rotated 2])
    qed
  qed
qed

lemma dispatch_sjf_fills:
  "dispatch_sjf now cpu ready = (cpu', ready') \<Longrightarrow> fills now cpu ready cpu' ready'"
proof (induction now cpu ready rule: dispatch_sjf.induct)
  case (1 now cpu ready)
  show ?case
  proof (cases "cpu_any_idle cpu")
    case False
    with "1.prems" show ?thesis by (auto simp: dispatch_sjf.simps [of now cpu ready] intro: fills.stop)
  next
    case True
    show ?thesis
    proof (cases "q_pop_min_burst ready")
      case None
      then have "ready = []" by (simp add: q_pop_min_burst_def pop_min_by_None)
      moreover from None True "1.prems" have "cpu' = cpu" "ready' = ready"
        by (simp_all add: dispatch_sjf.simps [of now cpu ready])
      ultimately show ?thesis by (auto intro: fills.stop)
    next
      case (Some p)
      obtain t rest where p: "p = (t, rest)" by (cases p)
      from Some p have r: "mset ready = add_mset t (mset rest)"
        by (simp add: q_pop_min_burst_def pop_min_by_mset)
      from "1.prems" True Some p have
        "dispatch_sjf now (cpu_bind_first_idle now cpu t) rest = (cpu', ready')"
        by (simp add: dispatch_sjf.simps [of now cpu ready])
      from "1.IH" [OF True Some p [symmetric] this] True r show ?thesis
        by (rule fills_stepI [rotated 2])
    qed
  qed
qed

lemma srtcf_fill_fills:
  "srtcf_fill now cpu ready = (cpu', ready') \<Longrightarrow> fills now cpu ready cpu' ready'"
proof (induction now cpu ready rule: srtcf_fill.induct)
  case (1 now cpu ready)
  show ?case
  proof (cases "cpu_any_idle cpu")
    case False
    with "1.prems" show ?thesis by (auto simp: srtcf_fill.simps [of now cpu ready] intro: fills.stop)
  next
    case True
    show ?thesis
    proof (cases "q_pop_min_remaining ready")
      case None
      then have "ready = []" by (simp add: q_pop_min_remaining_None)
      moreover from None True "1.prems" have "cpu' = cpu" "ready' = ready"
        by (simp_all add: srtcf_fill.simps [of now cpu ready])
      ultimately show ?thesis by (auto intro: fills.stop)
    next
      case (Some p)
      obtain t rest where p: "p = (t, rest)" by (cases p)
      from Some p have r: "mset ready = add_mset t (mset rest)"
        by (simp add: q_pop_min_remaining_def pop_min_by_mset)
      from "1.prems" True Some p have
        "srtcf_fill now (cpu_bind_first_idle now cpu t) rest = (cpu', ready')"
        by (simp add: srtcf_fill.simps [of now cpu ready])
      from "1.IH" [OF True Some p [symmetric] this] True r show ?thesis
        by (rule fills_stepI [rotated 2])
    qed
  qed
qed

lemma fills_length: "fills now cpu ready cpu' ready' \<Longrightarrow> length cpu' = length cpu"
  by (induction rule: fills.induct) simp_all

lemma fills_post: "fills now cpu ready cpu' ready' \<Longrightarrow> cpu_any_idle cpu' \<Longrightarrow> ready' = []"
  by (induction rule: fills.induct) auto

lemma fills_rel:
  assumes "fills now cpu ready cpu' ready'" and cl: "pre_closed R now"
  shows "rel_mset R (mset (occupants cpu) + mset ready) (mset (occupants cpu') + mset ready')"
  using assms(1)
proof (induction rule: fills.induct)
  case (stop cpu ready)
  from cl show ?case by (simp add: pre_closed_def rel_mset_same)
next
  case (step cpu i ready t rest cpu' ready')
  from cl have refl: "reflp R" and trans: "transp R" and bnd: "R t (bound_thread now t)"
    by (simp_all add: pre_closed_def)
  from cpu_first_idle_Some [OF step(1)] have i: "i < length cpu" "cpu ! i = None" by simp_all
  have "rel_mset R (add_mset t (mset (occupants cpu) + mset rest))
                   (add_mset (bound_thread now t) (mset (occupants cpu) + mset rest))"
    by (rule rel_mset_Plus [OF bnd rel_mset_same [OF refl]])
  then have "rel_mset R (mset (occupants cpu) + mset ready)
       (mset (occupants (cpu[i := Some (bound_thread now t)])) + mset rest)"
    by (simp add: step(2) occupants_fill_mset [OF i])
  then show ?case using step.IH by (rule rel_mset_trans [OF trans])
qed

lemma cpu_first_idle_None_set: "cpu_first_idle cpu = None \<longleftrightarrow> None \<notin> set cpu"
proof (induction cpu)
  case Nil
  then show ?case by simp
next
  case (Cons c cs)
  then show ?case by (cases c) auto
qed

lemma cpu_first_idle_update:
  "cpu_first_idle cpu = None \<Longrightarrow> cpu_first_idle (cpu[i := Some t]) = None"
  using set_update_subset_insert [of cpu i "Some t"] by (auto simp: cpu_first_idle_None_set)

lemma srtcf_preempt_length:
  assumes "srtcf_preempt now cpu ready = res"
  shows "length (fst (snd res)) = length cpu"
  using assms by (induction rule: srtcf_preempt_cases) simp_all

lemma srtcf_preempt_idle:
  assumes "srtcf_preempt now cpu ready = res"
  shows "(cpu_any_idle cpu \<longrightarrow> ready = []) \<longrightarrow>
         (cpu_any_idle (fst (snd res)) \<longrightarrow> snd (snd res) = [])"
  using assms
proof (induction rule: srtcf_preempt_cases)
  case (ReadyEmpty now cpu ready)
  then show ?case by (simp add: q_pop_min_remaining_None)
next
  case (NoVictim now cpu ready best ready1)
  then show ?case by (simp add: cpu_any_idle_def)
next
  case (Idle now cpu ready best ready1 idle res)
  then show ?case by (auto simp: cpu_any_idle_def q_pop_min_remaining_def)
next
  case (Victim now cpu ready best ready1 victim v res)
  then show ?case by (simp add: cpu_any_idle_def cpu_first_idle_update)
qed

lemma srtcf_preempt_rel:
  assumes "srtcf_preempt now cpu ready = res"
  shows "pre_closed R now \<longrightarrow>
         rel_mset R (mset (occupants cpu) + mset ready)
                    (mset (occupants (fst (snd res))) + mset (snd (snd res)))"
  using assms
proof (induction rule: srtcf_preempt_cases)
  case (ReadyEmpty now cpu ready)
  then show ?case by (simp add: pre_closed_def rel_mset_same)
next
  case (NoVictim now cpu ready best ready1)
  from NoVictim(1) have "mset ready = add_mset best (mset ready1)"
    by (simp add: q_pop_min_remaining_def pop_min_by_mset)
  then show ?case by (simp add: pre_closed_def rel_mset_same q_push_def)
next
  case (Idle now cpu ready best ready1 idle res)
  show ?case
  proof
    assume cl: "pre_closed R now"
    then have refl: "reflp R" and trans: "transp R" and bnd: "R best (bound_thread now best)"
      by (simp_all add: pre_closed_def)
    from cpu_first_idle_Some [OF Idle(2)] have i: "idle < length cpu" "cpu ! idle = None"
      by simp_all
    from Idle(1) have r: "mset ready = add_mset best (mset ready1)"
      by (simp add: q_pop_min_remaining_def pop_min_by_mset)
    have "rel_mset R (add_mset best (mset (occupants cpu) + mset ready1))
                     (add_mset (bound_thread now best) (mset (occupants cpu) + mset ready1))"
      by (rule rel_mset_Plus [OF bnd rel_mset_same [OF refl]])
    then have "rel_mset R (mset (occupants cpu) + mset ready)
         (mset (occupants (cpu[idle := Some (bound_thread now best)])) + mset ready1)"
      by (simp add: r occupants_fill_mset [OF i])
    moreover from Idle(4) cl have
      "rel_mset R (mset (occupants (cpu[idle := Some (bound_thread now best)])) + mset ready1)
                  (mset (occupants (fst (snd res))) + mset (snd (snd res)))" by simp
    ultimately show "rel_mset R (mset (occupants cpu) + mset ready)
                    (mset (occupants (fst (snd res))) + mset (snd (snd res)))"
      by (rule rel_mset_trans [OF trans])
  qed
next
  case (Victim now cpu ready best ready1 victim v res)
  show ?case
  proof
    assume cl: "pre_closed R now"
    then have refl: "reflp R" and trans: "transp R" and bnd: "R best (bound_thread now best)"
      and rdy: "R v (v\<lparr>state := ST_READY\<rparr>)"
      by (simp_all add: pre_closed_def)
    from Victim(1) have r: "mset ready = add_mset best (mset ready1)"
      by (simp add: q_pop_min_remaining_def pop_min_by_mset)
    define O1 where "O1 = mset (occupants cpu) - {#v#}"
    from occupants_update_mset [OF Victim(4,5), of "bound_thread now best"] have
      O': "mset (occupants (cpu[victim := Some (bound_thread now best)]))
            = add_mset (bound_thread now best) O1"
      and O: "mset (occupants cpu) = add_mset v O1"
      by (auto simp: O1_def)
    have "rel_mset R (add_mset best (add_mset v (O1 + mset ready1)))
            (add_mset (bound_thread now best) (add_mset (v\<lparr>state := ST_READY\<rparr>) (O1 + mset ready1)))"
      by (rule rel_mset_Plus [OF bnd rel_mset_Plus [OF rdy rel_mset_same [OF refl]]])
    then have "rel_mset R (mset (occupants cpu) + mset ready)
         (mset (occupants (cpu[victim := Some (bound_thread now best)]))
            + mset (ready1 @ [v\<lparr>state := ST_READY\<rparr>]))"
      by (simp add: r O O' add_mset_commute)
    moreover from Victim(8) cl have
      "rel_mset R (mset (occupants (cpu[victim := Some (bound_thread now best)]))
                     + mset (ready1 @ [v\<lparr>state := ST_READY\<rparr>]))
                  (mset (occupants (fst (snd res))) + mset (snd (snd res)))" by simp
    ultimately show "rel_mset R (mset (occupants cpu) + mset ready)
                    (mset (occupants (fst (snd res))) + mset (snd (snd res)))"
      by (rule rel_mset_trans [OF trans])
  qed
qed

lemma dispatch_srtcf_props:
  assumes "dispatch_srtcf now cpu ready = (cpu', ready')"
  shows "length cpu' = length cpu" and "cpu_any_idle cpu' \<Longrightarrow> ready' = []"
    and "pre_closed R now \<Longrightarrow>
         rel_mset R (mset (occupants cpu) + mset ready) (mset (occupants cpu') + mset ready')"
proof -
  obtain cpu1 ready1 where fill: "srtcf_fill now cpu ready = (cpu1, ready1)"
    by (cases "srtcf_fill now cpu ready")
  note f = srtcf_fill_fills [OF fill]
  from assms fill have res: "snd (srtcf_preempt now cpu1 ready1) = (cpu', ready')"
    by (simp add: dispatch_srtcf_def)
  from srtcf_preempt_length [OF refl, where now = now and cpu = cpu1 and ready = ready1] res fills_length [OF f]
  show "length cpu' = length cpu" by simp
  from srtcf_preempt_idle [OF refl, where now = now and cpu = cpu1 and ready = ready1] res fills_post [OF f]
  show "cpu_any_idle cpu' \<Longrightarrow> ready' = []" by auto
  assume cl: "pre_closed R now"
  then have trans: "transp R" by (simp add: pre_closed_def)
  from srtcf_preempt_rel [OF refl, where now = now and cpu = cpu1 and ready = ready1 and R = R] res cl
  have "rel_mset R (mset (occupants cpu1) + mset ready1) (mset (occupants cpu') + mset ready')"
    by simp
  with fills_rel [OF f cl]
  show "rel_mset R (mset (occupants cpu) + mset ready) (mset (occupants cpu') + mset ready')"
    by (rule rel_mset_trans [OF trans])
qed

lemma dispatch_get_props:
  assumes "dispatch_get algo now cpu ready = (cpu', ready')"
  shows "length cpu' = length cpu" and "cpu_any_idle cpu' \<Longrightarrow> ready' = []"
    and "pre_closed R now \<Longrightarrow>
         rel_mset R (mset (occupants cpu) + mset ready) (mset (occupants cpu') + mset ready')"
proof -
  have "length cpu' = length cpu \<and> (cpu_any_idle cpu' \<longrightarrow> ready' = [])
      \<and> (pre_closed R now \<longrightarrow>
         rel_mset R (mset (occupants cpu) + mset ready) (mset (occupants cpu') + mset ready'))"
  proof (cases algo)
    case DISP_FIFO
    with assms have "fills now cpu ready cpu' ready'" by (simp add: dispatch_fifo_fills)
    then show ?thesis using fills_length fills_post fills_rel by blast
  next
    case DISP_SJF
    with assms have "fills now cpu ready cpu' ready'" by (simp add: dispatch_sjf_fills)
    then show ?thesis using fills_length fills_post fills_rel by blast
  next
    case DISP_SRTCF
    with assms have "dispatch_srtcf now cpu ready = (cpu', ready')" by simp
    from dispatch_srtcf_props [OF this] show ?thesis by blast
  qed
  then show "length cpu' = length cpu" and "cpu_any_idle cpu' \<Longrightarrow> ready' = []"
    and "pre_closed R now \<Longrightarrow>
         rel_mset R (mset (occupants cpu) + mset ready) (mset (occupants cpu') + mset ready')"
    by blast+
qed

lemma occupants_append: "occupants (xs @ ys) = occupants xs @ occupants ys"
  by (induction xs rule: occupants.induct) simp_all

lemma occupants_map: "occupants (map (map_option f) cpu) = map f (occupants cpu)"
  by (induction cpu rule: occupants.induct) simp_all

lemma cpu_step_eq:
  "cpu_step cpu now = (cpu', now') \<Longrightarrow>
   now' = now + 1 \<and> length cpu' = length cpu \<and> occupants cpu' = map stepped (occupants cpu)"
  by (auto simp: cpu_step_def occupants_map stepped_def)

lemma occupants_keep_running:
  "occupants (map keep_running cpu) = filter (\<lambda>t. remaining t \<noteq> 0) (occupants cpu)"
  by (induction cpu rule: occupants.induct) (simp_all add: keep_running_def)

lemma collect_completions_eq:
  "collect_completions now cpu fin =
     (map keep_running cpu,
      fin @ map (finished_thread now) (filter (\<lambda>t. remaining t = 0) (occupants cpu)))"
proof -
  let ?P = "\<lambda>(i::nat) (acc :: CPU \<times> Queue). acc =
     (map keep_running (take i cpu) @ drop i cpu,
      fin @ map (finished_thread now) (filter (\<lambda>t. remaining t = 0) (occupants (take i cpu))))"
  have "?P (length cpu) (fold (collect_core now) [0..<length cpu] (cpu, fin))"
  proof (rule fold_upt_invariant [where P = ?P])
    show "?P 0 (cpu, fin)" by simp
  next
    fix i acc assume i: "i < length cpu" and inv: "?P i acc"
    define c where "c = map keep_running (take i cpu) @ drop i cpu"
    define f where "f = fin @ map (finished_thread now) (filter (\<lambda>t. remaining t = 0) (occupants (take i cpu)))"
    from inv have acc: "acc = (c, f)" by (simp add: c_def f_def)
    from i have len: "length c = length cpu" by (simp add: c_def)
    from i have li: "length (map keep_running (take i cpu)) = i" by simp
    from i have ci: "c ! i = cpu ! i"
      by (simp add: c_def nth_append)
    from i have tk: "take (Suc i) cpu = take i cpu @ [cpu ! i]"
      by (rule take_Suc_conv_app_nth)
    from i have dr: "drop i cpu = cpu ! i # drop (Suc i) cpu"
      by (simp add: Cons_nth_drop_Suc)
    have upd: "c[i := x] = map keep_running (take i cpu) @ x # drop (Suc i) cpu" for x
      unfolding c_def dr using li by (metis list_update_length)
    show "?P (Suc i) (collect_core now i acc)"
    proof (cases "cpu ! i")
      case None
      with i len ci have "collect_core now i (c, f) = (c, f)"
        by (simp add: collect_core_def core_at_def)
      moreover from None have "c = map keep_running (take (Suc i) cpu) @ drop (Suc i) cpu"
        by (simp add: c_def tk keep_running_def) (simp add: dr None)
      moreover from None have "f = fin @ map (finished_thread now)
          (filter (\<lambda>t. remaining t = 0) (occupants (take (Suc i) cpu)))"
        by (simp add: f_def tk occupants_append)
      ultimately show ?thesis using acc by simp
    next
      case (Some t)
      show ?thesis
      proof (cases "remaining t = 0")
        case True
        with Some i len ci have "collect_core now i (c, f) = (c[i := None], f @ [finished_thread now t])"
          by (simp add: collect_core_def core_at_def cpu_unbind_core_def q_push_def finished_thread_def)
        moreover from Some True have "c[i := None] = map keep_running (take (Suc i) cpu) @ drop (Suc i) cpu"
          by (simp add: upd tk keep_running_def)
        moreover from Some True have "f @ [finished_thread now t] = fin @ map (finished_thread now)
            (filter (\<lambda>t. remaining t = 0) (occupants (take (Suc i) cpu)))"
          by (simp add: f_def tk occupants_append)
        ultimately show ?thesis using acc by simp
      next
        case False
        with Some i len ci have "collect_core now i (c, f) = (c, f)"
          by (simp add: collect_core_def core_at_def)
        moreover from Some False have "c = map keep_running (take (Suc i) cpu) @ drop (Suc i) cpu"
          by (simp add: c_def tk keep_running_def) (simp add: dr Some)
        moreover from Some False have "f = fin @ map (finished_thread now)
            (filter (\<lambda>t. remaining t = 0) (occupants (take (Suc i) cpu)))"
          by (simp add: f_def tk occupants_append)
        ultimately show ?thesis using acc by simp
      qed
    qed
  qed
  then show ?thesis by (simp add: collect_completions_def)
qed

lemma collect_rel:
  assumes "reflp R" "\<And>t. R t (finished_thread now t)"
    and "collect_completions now cpu fin = (cpu', fin')"
  shows "rel_mset R (mset (occupants cpu) + mset fin) (mset (occupants cpu') + mset fin')"
proof -
  note rel = split_rel [of R "finished_thread now" "occupants cpu" fin "\<lambda>t. remaining t = 0",
      OF assms(1,2)]
  from assms(3) have "occupants cpu' = filter (\<lambda>t. remaining t \<noteq> 0) (occupants cpu)"
    and "fin' = fin @ map (finished_thread now) (filter (\<lambda>t. remaining t = 0) (occupants cpu))"
    by (auto simp: collect_completions_eq occupants_keep_running)
  with rel show ?thesis by (simp only:)
qed

lemma sim_tick_phases:
  obtains wl rd1 wt1 rd2 cp1 wt2 k cp2 rd3 cp3 cp4 fin where
    "workload_admit_tick (workload_q s) (ready_q s) (sim_time s) = (wl, rd1)"
    "waiting_io_resolve (waiting_q s) rd1 (sim_time s) = (wt1, rd2)"
    "random_interrupts (Some intr) rand (sim_time s) (cores s) wt1 (rand_calls s) = (cp1, wt2, k)"
    "dispatch_get algo (sim_time s) cp1 rd2 = (cp2, rd3)"
    "cpu_step cp2 (sim_time s) = (cp3, sim_time s + 1)"
    "collect_completions (sim_time s + 1) cp3 (finished_q s) = (cp4, fin)"
    "sim_tick algo intr rand s =
       \<lparr>sim_time = sim_time s + 1, workload_q = wl, ready_q = bump_queue_wait rd3,
        waiting_q = wt2, finished_q = fin, cores = cp4, rand_calls = k\<rparr>"
proof -
  obtain wl rd1 where a: "workload_admit_tick (workload_q s) (ready_q s) (sim_time s) = (wl, rd1)"
    by (cases "workload_admit_tick (workload_q s) (ready_q s) (sim_time s)")
  obtain wt1 rd2 where b: "waiting_io_resolve (waiting_q s) rd1 (sim_time s) = (wt1, rd2)"
    by (cases "waiting_io_resolve (waiting_q s) rd1 (sim_time s)")
  obtain cp1 wt2 k where
    c: "random_interrupts (Some intr) rand (sim_time s) (cores s) wt1 (rand_calls s) = (cp1, wt2, k)"
    by (cases "random_interrupts (Some intr) rand (sim_time s) (cores s) wt1 (rand_calls s)")
  obtain cp2 rd3 where d: "dispatch_get algo (sim_time s) cp1 rd2 = (cp2, rd3)"
    by (cases "dispatch_get algo (sim_time s) cp1 rd2")
  obtain cp3 where e: "cpu_step cp2 (sim_time s) = (cp3, sim_time s + 1)"
    by (simp add: cpu_step_def)
  obtain cp4 fin where f: "collect_completions (sim_time s + 1) cp3 (finished_q s) = (cp4, fin)"
    by (cases "collect_completions (sim_time s + 1) cp3 (finished_q s)")
  have "sim_tick algo intr rand s =
       \<lparr>sim_time = sim_time s + 1, workload_q = wl, ready_q = bump_queue_wait rd3,
        waiting_q = wt2, finished_q = fin, cores = cp4, rand_calls = k\<rparr>"
    by (simp add: sim_tick_def a b c d e f)
  with a b c d e f show ?thesis by (rule that)
qed

lemma rel_mset_frame:
  assumes "reflp R" "rel_mset R A B" "X = A + F" "Y = B + F"
  shows "rel_mset R X Y"
  using rel_mset_plus [OF assms(2) rel_mset_same [OF assms(1), of F]] assms(3,4) by simp

lemma tick_chain:
  fixes W :: "'a multiset"
  assumes refl: "reflp R" and trans: "transp R"
    and admit: "rel_mset R (W + Rd) (W' + Rd1)"
    and resolve: "rel_mset R (Wt + Rd1) (Wt1 + Rd2)"
    and interrupts: "rel_mset R (C + Wt1) (C1 + Wt2)"
    and dispatch: "rel_mset R (C1 + Rd2) (C2 + Rd3)"
    and bump: "rel_mset R Rd3 Rd4"
  shows "rel_mset R (W + Rd + Wt + F + C) (W' + Rd4 + Wt2 + F + C2)"
proof -
  have 1: "rel_mset R (W + Rd + Wt + F + C) (W' + Rd1 + Wt + F + C)"
    by (rule rel_mset_frame [OF refl admit, of _ "Wt + F + C"]) (simp_all only: ac_simps)
  have 2: "rel_mset R (W' + Rd1 + Wt + F + C) (W' + Rd2 + Wt1 + F + C)"
    by (rule rel_mset_frame [OF refl resolve, of _ "W' + F + C"]) (simp_all only: ac_simps)
  have 3: "rel_mset R (W' + Rd2 + Wt1 + F + C) (W' + Rd2 + Wt2 + F + C1)"
    by (rule rel_mset_frame [OF refl interrupts, of _ "W' + Rd2 + F"]) (simp_all only: ac_simps)
  have 4: "rel_mset R (W' + Rd2 + Wt2 + F + C1) (W' + Rd3 + Wt2 + F + C2)"
    by (rule rel_mset_frame [OF refl dispatch, of _ "W' + Wt2 + F"]) (simp_all only: ac_simps)
  have 5: "rel_mset R (W' + Rd3 + Wt2 + F + C2) (W' + Rd4 + Wt2 + F + C2)"
    by (rule rel_mset_frame [OF refl bump, of _ "W' + Wt2 + F + C2"]) (simp_all only: ac_simps)
  note t = rel_mset_trans [OF trans]
  from t [OF t [OF t [OF t [OF 1 2] 3] 4] 5] show ?thesis .
qed

lemma pre_step_rel:
  assumes cl: "pre_closed R (sim_time s)"
    and a: "workload_admit_tick (workload_q s) (ready_q s) (sim_time s) = (wl, rd1)"
    and b: "waiting_io_resolve (waiting_q s) rd1 (sim_time s) = (wt1, rd2)"
    and c: "random_interrupts (Some intr) rand (sim_time s) (cores s) wt1 (rand_calls s) = (cp1, wt2, k)"
    and d: "dispatch_get algo (sim_time s) cp1 rd2 = (cp2, rd3)"
  shows "rel_mset R (all_threads s)
           (mset wl + mset (bump_queue_wait rd3) + mset wt2 + mset (finished_q s)
              + mset (occupants cp2))"
proof -
  from cl have refl: "reflp R" and trans: "transp R" by (simp_all add: pre_closed_def)
  show ?thesis
    unfolding all_threads_def
    by (rule tick_chain [OF refl trans admit_rel [OF cl a] resolve_rel [OF cl b]
          conjunct2 [OF interrupts_rel [OF cl c]] dispatch_get_props(3) [OF d cl]
          bump_rel [OF cl]])
qed

lemma tick_rel:
  assumes cl: "tick_closed R (sim_time s)"
  shows "rel_mset R (all_threads s) (all_threads (sim_tick algo intr rand s))"
proof -
  from cl have pre: "pre_closed R (sim_time s)"
    and stp: "\<And>t. R t (stepped t)"
    and fin: "\<And>t. R t (finished_thread (sim_time s + 1) t)"
    by (simp_all add: tick_closed_def)
  from pre have refl: "reflp R" and trans: "transp R" by (simp_all add: pre_closed_def)
  obtain wl rd1 wt1 rd2 cp1 wt2 k cp2 rd3 cp3 cp4 fn where
    a: "workload_admit_tick (workload_q s) (ready_q s) (sim_time s) = (wl, rd1)" and
    b: "waiting_io_resolve (waiting_q s) rd1 (sim_time s) = (wt1, rd2)" and
    c: "random_interrupts (Some intr) rand (sim_time s) (cores s) wt1 (rand_calls s) = (cp1, wt2, k)" and
    d: "dispatch_get algo (sim_time s) cp1 rd2 = (cp2, rd3)" and
    e: "cpu_step cp2 (sim_time s) = (cp3, sim_time s + 1)" and
    f: "collect_completions (sim_time s + 1) cp3 (finished_q s) = (cp4, fn)" and
    t: "sim_tick algo intr rand s =
       \<lparr>sim_time = sim_time s + 1, workload_q = wl, ready_q = bump_queue_wait rd3,
        waiting_q = wt2, finished_q = fn, cores = cp4, rand_calls = k\<rparr>"
    by (rule sim_tick_phases)
  let ?mid = "mset wl + mset (bump_queue_wait rd3) + mset wt2 + mset (finished_q s)
              + mset (occupants cp2)"
  from pre_step_rel [OF pre a b c d] have mid: "rel_mset R (all_threads s) ?mid" .
  from cpu_step_eq [OF e] have occ3: "occupants cp3 = map stepped (occupants cp2)" by simp
  have "rel_mset R (mset (occupants cp2)) (mset (map stepped (occupants cp2)))"
    by (rule rel_mset_map) (rule stp)
  with occ3 have step: "rel_mset R (mset (occupants cp2)) (mset (occupants cp3))" by simp
  have col: "rel_mset R (mset (occupants cp3) + mset (finished_q s)) (mset (occupants cp4) + mset fn)"
    by (rule collect_rel [OF refl fin f])
  have 6: "rel_mset R ?mid
      (mset wl + mset (bump_queue_wait rd3) + mset wt2 + mset (finished_q s) + mset (occupants cp3))"
    by (rule rel_mset_frame [OF refl step,
          of _ "mset wl + mset (bump_queue_wait rd3) + mset wt2 + mset (finished_q s)"])
       (simp_all only: ac_simps)
  have 7: "rel_mset R
      (mset wl + mset (bump_queue_wait rd3) + mset wt2 + mset (finished_q s) + mset (occupants cp3))
      (mset wl + mset (bump_queue_wait rd3) + mset wt2 + mset fn + mset (occupants cp4))"
    by (rule rel_mset_frame [OF refl col, of _ "mset wl + mset (bump_queue_wait rd3) + mset wt2"])
       (simp_all only: ac_simps)
  note tr = rel_mset_trans [OF trans]
  from tr [OF tr [OF mid 6] 7] show ?thesis by (simp add: t all_threads_def)
qed

section \<open>The threads are partitioned over the queues and the cores\<close>

lemma same_thread_closed: "tick_closed same_thread now"
  by (simp add: tick_closed_def pre_closed_def same_thread_def reflp_def transp_def
      bound_thread_def blocked_def stepped_def finished_thread_def)

lemma tick_tids:
  "image_mset tid (all_threads (sim_tick algo intr rand s)) = image_mset tid (all_threads s)"
proof -
  from tick_rel [OF same_thread_closed]
  have "rel_mset (\<lambda>x y. tid y = tid x) (all_threads s) (all_threads (sim_tick algo intr rand s))"
    unfolding same_thread_def .
  then have "rel_mset (\<lambda>x y. tid x = tid y) (all_threads s) (all_threads (sim_tick algo intr rand s))"
    by (rule multiset.rel_mono_strong) simp
  from rel_mset_image [OF this] show ?thesis by simp
qed

lemma occupants_replicate: "occupants (replicate n None) = []"
  by (induction n) simp_all

lemma sim_start_eq:
  "sim_start ncores workload =
     \<lparr>sim_time = 0, workload_q = filter (\<lambda>t. arrival_time t \<noteq> 0) workload,
      ready_q = map (\<lambda>t. t\<lparr>state := ST_READY\<rparr>) (filter (\<lambda>t. arrival_time t = 0) workload),
      waiting_q = [], finished_q = [], cores = replicate ncores None, rand_calls = 0\<rparr>"
  by (simp add: sim_start_def workload_admit_tick_eq q_init_def cpu_init_def)

lemma start_tids:
  "image_mset tid (all_threads (sim_start ncores workload)) = image_mset tid (mset workload)"
proof -
  have "mset workload = mset (filter (\<lambda>t. arrival_time t \<noteq> 0) workload)
          + mset (filter (\<lambda>t. arrival_time t = 0) workload)"
    by (induction workload) auto
  then have "image_mset tid (mset workload)
      = image_mset tid (mset (filter (\<lambda>t. arrival_time t \<noteq> 0) workload))
          + image_mset tid (mset (filter (\<lambda>t. arrival_time t = 0) workload))"
    by (metis image_mset_union)
  then show ?thesis
    by (simp add: sim_start_eq all_threads_def occupants_replicate image_mset.compositionality
        comp_def)
qed

text \<open>
  Claim C2. At every tick boundary (the state after any number \<open>n\<close> of passes of the loop
  body, from the start of \<^verbatim>\<open>main\<close>), the thread ids found in the workload queue, Ready,
  Waiting, Finished and the core slots, counted with multiplicity over all these places,
  are exactly the ids of the constructed threads. When the ids are distinct, as \<^verbatim>\<open>main\<close>
  assigns them, every constructed thread is therefore found exactly once: in one place,
  not in two, and not in none. This holds for each policy, every interrupt
  configuration and every sequence of random numbers.
\<close>

theorem partition_invariant:
  "image_mset tid (all_threads ((sim_tick algo intr rand ^^ n) (sim_start ncores workload)))
     = image_mset tid (mset workload)
   \<and> (distinct (map tid workload) \<longrightarrow>
        (\<forall>t \<in> set workload.
           count (image_mset tid
             (all_threads ((sim_tick algo intr rand ^^ n) (sim_start ncores workload)))) (tid t) = 1))"
proof -
  have eq: "image_mset tid (all_threads ((sim_tick algo intr rand ^^ n) (sim_start ncores workload)))
     = image_mset tid (mset workload)"
    by (induction n) (simp_all add: start_tids tick_tids)
  have "count (image_mset tid (mset workload)) (tid t) = 1"
    if "distinct (map tid workload)" "t \<in> set workload" for t
    using that by (metis distinct_count_atmost_1 image_eqI list.set_map mset_map)
  with eq show ?thesis by simp
qed

theorem partition_invariant_witness:
  "image_mset tid (all_threads ((sim_tick DISP_SRTCF intr_main (\<lambda>k. 0) ^^ 3) (sim_start 1 preset_small)))
     = {#1, 2, 3, 4#}
   \<and> count (image_mset tid
        (all_threads ((sim_tick DISP_SRTCF intr_main (\<lambda>k. 0) ^^ 3) (sim_start 1 preset_small)))) 3 = 1"
proof -
  have ps: "preset_small = [make_thread 1 0 5, make_thread 2 0 3, make_thread 3 2 6, make_thread 4 4 4]"
    by (simp add: preset_small_def workload_add_def q_push_def q_init_def)
  have d: "distinct (map tid preset_small)" by (simp add: ps make_thread_def)
  have m: "make_thread 3 2 6 \<in> set preset_small" by (simp add: ps)
  have t: "tid (make_thread 3 2 6) = 3" by (simp add: make_thread_def)
  have i: "image_mset tid (mset preset_small) = {#1, 2, 3, 4#}" by (simp add: ps make_thread_def)
  from partition_invariant [where algo = DISP_SRTCF and intr = intr_main and rand = "\<lambda>k. 0"
      and n = 3 and ncores = 1 and workload = preset_small] d m t i
  show ?thesis by metis
qed

section \<open>SRTCF: the post-condition of a dispatch\<close>

lemma largest_fold_floor:
  "fold (largest_step cpu threshold) [0..<n] (None, - 1) = (bc, br) \<Longrightarrow>
   - 1 \<le> br \<and> (bc \<noteq> None \<longrightarrow> - 1 < br)"
proof (induction n arbitrary: bc br)
  case 0
  then show ?case by simp
next
  case (Suc n)
  obtain bc0 br0 where prev: "fold (largest_step cpu threshold) [0..<n] (None, - 1) = (bc0, br0)"
    by (cases "fold (largest_step cpu threshold) [0..<n] (None, - 1)")
  from Suc.prems prev have step: "largest_step cpu threshold n (bc0, br0) = (bc, br)"
    by simp
  from Suc.IH [OF prev] have "- 1 \<le> br0" "bc0 \<noteq> None \<longrightarrow> - 1 < br0" by simp_all
  with step show ?case
    by (auto simp: largest_step_def split: option.splits if_splits)
qed

lemma largest_Some_nonneg:
  assumes "core_with_largest_remaining_above cpu threshold = Some i"
    and "cpu ! i = Some v"
  shows "0 \<le> remaining v"
proof -
  obtain bc br where f: "fold (largest_step cpu threshold) [0..<length cpu] (None, - 1) = (bc, br)"
    by (cases "fold (largest_step cpu threshold) [0..<length cpu] (None, - 1)")
  with assms(1) have bc: "bc = Some i" by (simp add: core_with_largest_remaining_above_def)
  from largest_fold_sound [of "length cpu" cpu threshold i br] f bc assms(2)
  have "br = remaining v" by auto
  moreover from largest_fold_floor [OF f] bc have "- 1 < br" by simp
  ultimately show ?thesis by simp
qed

lemma occupants_update_subset:
  "set (occupants (cpu[i := Some x])) \<subseteq> insert x (set (occupants cpu))"
  using set_update_subset_insert [of cpu i "Some x"] by (auto simp: occupants_set)

lemma srtcf_inv_bind:
  assumes inv: "srtcf_inv cpu ready"
    and pop: "q_pop_min_remaining ready = Some (best, ready1)"
  shows "srtcf_inv (cpu[i := Some (bound_thread now best)]) ready1"
  unfolding srtcf_inv_def
proof (intro ballI)
  fix T assume "T \<in> set (occupants (cpu[i := Some (bound_thread now best)]))"
  with occupants_update_subset have
    T: "T = bound_thread now best \<or> T \<in> set (occupants cpu)" by blast
  from pop have set: "set ready = insert best (set ready1)" by (rule q_pop_min_remaining_set)
  from T show "0 \<le> remaining T \<or> (\<forall>R \<in> set ready1. remaining T \<le> remaining R)"
  proof
    assume "T = bound_thread now best"
    then have "remaining T = remaining best" by (simp add: bound_thread_def)
    with q_pop_min_remaining_least [OF pop] set show ?thesis by auto
  next
    assume "T \<in> set (occupants cpu)"
    with inv set show ?thesis by (auto simp: srtcf_inv_def)
  qed
qed

lemma srtcf_fill_inv:
  "srtcf_fill now cpu ready = (cpu1, ready1) \<Longrightarrow> srtcf_inv cpu ready \<Longrightarrow> srtcf_inv cpu1 ready1"
proof (induction now cpu ready arbitrary: cpu1 ready1 rule: srtcf_fill.induct)
  case (1 now cpu ready)
  show ?case
  proof (cases "cpu_any_idle cpu")
    case False
    with "1.prems" show ?thesis by (simp add: srtcf_fill.simps [of now cpu ready])
  next
    case True
    show ?thesis
    proof (cases "q_pop_min_remaining ready")
      case None
      with True "1.prems" show ?thesis by (simp add: srtcf_fill.simps [of now cpu ready])
    next
      case (Some p)
      obtain t rest where p: "p = (t, rest)" by (cases p)
      from "1.prems" True Some p have
        run: "srtcf_fill now (cpu_bind_first_idle now cpu t) rest = (cpu1, ready1)"
        by (simp add: srtcf_fill.simps [of now cpu ready])
      from True obtain i where "cpu_first_idle cpu = Some i" by (auto simp: cpu_any_idle_def)
      then have "cpu_bind_first_idle now cpu t = cpu[i := Some (bound_thread now t)]"
        by (simp add: cpu_bind_first_idle_def cpu_bind_core_bound)
      with srtcf_inv_bind [OF "1.prems"(2) Some [unfolded p], of i now]
      have "srtcf_inv (cpu_bind_first_idle now cpu t) rest" by simp
      from "1.IH" [OF True Some p [symmetric] run this] show ?thesis .
    qed
  qed
qed

lemma srtcf_preempt_inv_post:
  assumes "srtcf_preempt now cpu ready = res"
  shows "srtcf_inv cpu ready \<longrightarrow>
         (\<forall>R \<in> set (snd (snd res)). \<forall>T \<in> set (occupants (fst (snd res))). remaining T \<le> remaining R)"
  using assms
proof (induction rule: srtcf_preempt_cases)
  case (ReadyEmpty now cpu ready)
  then show ?case by (simp add: q_pop_min_remaining_None)
next
  case (NoVictim now cpu ready best ready1)
  show ?case
  proof (intro impI ballI)
    fix R T
    assume inv: "srtcf_inv cpu ready"
      and R: "R \<in> set (snd (snd (NoVictim, cpu, q_push ready1 best)))"
      and T: "T \<in> set (occupants (fst (snd (NoVictim, cpu, q_push ready1 best))))"
    from NoVictim(1) have set: "set ready = insert best (set ready1)"
      by (rule q_pop_min_remaining_set)
    from R set have Rin: "R \<in> set ready" by (auto simp: q_push_def)
    from T have Tin: "T \<in> set (occupants cpu)" by simp
    show "remaining T \<le> remaining R"
    proof (cases "0 \<le> remaining T")
      case True
      with largest_None [OF NoVictim(3) Tin] have "remaining T \<le> remaining best" by linarith
      also from q_pop_min_remaining_least [OF NoVictim(1) Rin] have "remaining best \<le> remaining R" .
      finally show ?thesis .
    next
      case False
      with inv Tin Rin show ?thesis by (auto simp: srtcf_inv_def)
    qed
  qed
next
  case (Idle now cpu ready best ready1 idle res)
  from Idle(4) srtcf_inv_bind [OF _ Idle(1), of cpu idle now] show ?case by blast
next
  case (Victim now cpu ready best ready1 victim v res)
  show ?case
  proof
    assume inv: "srtcf_inv cpu ready"
    from largest_Some_nonneg [OF Victim(3,5)] have v: "0 \<le> remaining v" .
    from srtcf_inv_bind [OF inv Victim(1), of victim now]
    have b: "srtcf_inv (cpu[victim := Some (bound_thread now best)]) ready1" .
    have "srtcf_inv (cpu[victim := Some (bound_thread now best)]) (ready1 @ [v\<lparr>state := ST_READY\<rparr>])"
      unfolding srtcf_inv_def
    proof (intro ballI)
      fix T assume T: "T \<in> set (occupants (cpu[victim := Some (bound_thread now best)]))"
      with b have "0 \<le> remaining T \<or> (\<forall>R \<in> set ready1. remaining T \<le> remaining R)"
        by (simp add: srtcf_inv_def)
      with v show "0 \<le> remaining T
          \<or> (\<forall>R \<in> set (ready1 @ [v\<lparr>state := ST_READY\<rparr>]). remaining T \<le> remaining R)"
        by auto
    qed
    with Victim(8) show "\<forall>R \<in> set (snd (snd res)). \<forall>T \<in> set (occupants (fst (snd res))).
        remaining T \<le> remaining R"
      by blast
  qed
qed

lemma interrupts_occupants:
  "set (occupants (fst (random_interrupts cfg rand now cpu waiting k))) \<subseteq> set (occupants cpu)"
proof -
  obtain c w k' where r: "random_interrupts cfg rand now cpu waiting k = (c, w, k')"
    by (cases "random_interrupts cfg rand now cpu waiting k")
  from random_interrupts_frame_inv [of cpu waiting cfg rand now k] r
  have len: "length c = length cpu"
    and slot: "\<forall>j < length cpu. c ! j = cpu ! j \<or> c ! j = None"
    by (auto simp: frame_inv_def)
  have "set (occupants c) \<subseteq> set (occupants cpu)"
  proof
    fix t assume "t \<in> set (occupants c)"
    then obtain j where "j < length c" "c ! j = Some t"
      by (auto simp: occupants_set in_set_conv_nth)
    with len slot have "j < length cpu" "cpu ! j = Some t" by auto
    then show "t \<in> set (occupants cpu)" by (rule occupants_nth)
  qed
  with r show ?thesis by simp
qed

lemma sim_tick_cores:
  "\<forall>T \<in> set (occupants (cores (sim_tick algo intr rand s))). 0 \<le> remaining T"
proof -
  obtain wl rd1 wt1 rd2 cp1 wt2 k cp2 rd3 cp3 cp4 fin where
    step: "cpu_step cp2 (sim_time s) = (cp3, sim_time s + 1)"
    and col: "collect_completions (sim_time s + 1) cp3 (finished_q s) = (cp4, fin)"
    and tick: "sim_tick algo intr rand s =
       \<lparr>sim_time = sim_time s + 1, workload_q = wl, ready_q = bump_queue_wait rd3,
        waiting_q = wt2, finished_q = fin, cores = cp4, rand_calls = k\<rparr>"
    by (rule sim_tick_phases [of s intr rand algo])
  from cpu_step_eq [OF step] have "occupants cp3 = map stepped (occupants cp2)" by simp
  moreover from col have "occupants cp4 = filter (\<lambda>t. remaining t \<noteq> 0) (occupants cp3)"
    by (auto simp: collect_completions_eq occupants_keep_running)
  ultimately have "\<forall>T \<in> set (occupants cp4). 0 \<le> remaining T"
    by (auto simp: stepped_def)
  with tick show ?thesis by simp
qed

lemma run_cores:
  "\<forall>T \<in> set (occupants (cores ((sim_tick algo intr rand ^^ n) (sim_start ncores workload)))).
     0 \<le> remaining T"
proof (cases n)
  case 0
  then show ?thesis by (simp add: sim_start_eq occupants_replicate)
next
  case (Suc m)
  with sim_tick_cores [of algo intr rand "(sim_tick algo intr rand ^^ m) (sim_start ncores workload)"]
  show ?thesis by simp
qed

text \<open>
  Claim C1. When every thread bound to a core has a non-negative remaining time, then
  after \<^verbatim>\<open>dispatch_srtcf\<close> returns every thread left in Ready has a remaining time at
  least that of every thread bound to a core; nothing is asked of the Ready queue. The
  preemption loop terminates on every input: its recursion is well-founded at every
  state \<open>(cpu0, ready0)\<close>, by the measure given with its definition. Every call that the
  simulation makes is on such cores: the loop body passes the cores that
  \<^verbatim>\<open>random_interrupts\<close> returns for the cores of a tick boundary, and after any number \<open>n\<close>
  of ticks, for each policy, workload, interrupt configuration and sequence of random
  numbers, these hold only threads with a non-negative remaining time.
\<close>

theorem srtcf_postcondition:
  assumes "\<forall>T \<in> set (occupants cpu). 0 \<le> remaining T"
    and "dispatch_srtcf now cpu ready = (cpu', ready')"
  shows "(\<forall>R \<in> set ready'. \<forall>T \<in> set (occupants cpu'). remaining T \<le> remaining R)
         \<and> srtcf_preempt_dom (now, cpu0, ready0)
         \<and> (\<forall>T \<in> set (occupants (fst (random_interrupts (Some intr) rand clock
                 (cores ((sim_tick algo intr rand ^^ n) (sim_start ncores workload))) wt k))).
              0 \<le> remaining T)"
proof (intro conjI)
  obtain cpu1 ready1 where fill: "srtcf_fill now cpu ready = (cpu1, ready1)"
    by (cases "srtcf_fill now cpu ready")
  from assms(1) have "srtcf_inv cpu ready" by (simp add: srtcf_inv_def)
  with fill have inv: "srtcf_inv cpu1 ready1" by (rule srtcf_fill_inv)
  from assms(2) fill have "snd (srtcf_preempt now cpu1 ready1) = (cpu', ready')"
    by (simp add: dispatch_srtcf_def)
  with srtcf_preempt_inv_post [OF refl, where now = now and cpu = cpu1 and ready = ready1] inv
  show "\<forall>R \<in> set ready'. \<forall>T \<in> set (occupants cpu'). remaining T \<le> remaining R"
    by simp
  from srtcf_preempt_total show "srtcf_preempt_dom (now, cpu0, ready0)" by simp
  from interrupts_occupants run_cores
  show "\<forall>T \<in> set (occupants (fst (random_interrupts (Some intr) rand clock
                 (cores ((sim_tick algo intr rand ^^ n) (sim_start ncores workload))) wt k))).
              0 \<le> remaining T"
    by blast
qed

theorem srtcf_postcondition_witness:
  "dispatch_srtcf 7
     [Some \<lparr>tid = 1, arrival_time = 0, burst_time = 9, remaining = 5, state = ST_RUNNING,
            unblocked_at = - 1, start_time = 3, finish_time = - 1, wait_time = 3\<rparr>,
      None]
     [\<lparr>tid = 2, arrival_time = 7, burst_time = 3, remaining = 3, state = ST_READY,
        unblocked_at = - 1, start_time = - 1, finish_time = - 1, wait_time = 0\<rparr>,
      \<lparr>tid = 3, arrival_time = 7, burst_time = 7, remaining = 7, state = ST_READY,
        unblocked_at = - 1, start_time = - 1, finish_time = - 1, wait_time = 0\<rparr>,
      \<lparr>tid = 4, arrival_time = 7, burst_time = 1, remaining = 1, state = ST_READY,
        unblocked_at = - 1, start_time = - 1, finish_time = - 1, wait_time = 0\<rparr>]
   = ([Some \<lparr>tid = 2, arrival_time = 7, burst_time = 3, remaining = 3, state = ST_RUNNING,
             unblocked_at = - 1, start_time = 7, finish_time = - 1, wait_time = 0\<rparr>,
       Some \<lparr>tid = 4, arrival_time = 7, burst_time = 1, remaining = 1, state = ST_RUNNING,
             unblocked_at = - 1, start_time = 7, finish_time = - 1, wait_time = 0\<rparr>],
      [\<lparr>tid = 3, arrival_time = 7, burst_time = 7, remaining = 7, state = ST_READY,
         unblocked_at = - 1, start_time = - 1, finish_time = - 1, wait_time = 0\<rparr>,
       \<lparr>tid = 1, arrival_time = 0, burst_time = 9, remaining = 5, state = ST_READY,
         unblocked_at = - 1, start_time = 3, finish_time = - 1, wait_time = 3\<rparr>])
   \<and> list_all (\<lambda>R. list_all (\<lambda>T. remaining T \<le> remaining R)
        [\<lparr>tid = 2, arrival_time = 7, burst_time = 3, remaining = 3, state = ST_RUNNING,
            unblocked_at = - 1, start_time = 7, finish_time = - 1, wait_time = 0\<rparr>,
         \<lparr>tid = 4, arrival_time = 7, burst_time = 1, remaining = 1, state = ST_RUNNING,
            unblocked_at = - 1, start_time = 7, finish_time = - 1, wait_time = 0\<rparr>])
      [\<lparr>tid = 3, arrival_time = 7, burst_time = 7, remaining = 7, state = ST_READY,
         unblocked_at = - 1, start_time = - 1, finish_time = - 1, wait_time = 0\<rparr>,
       \<lparr>tid = 1, arrival_time = 0, burst_time = 9, remaining = 5, state = ST_READY,
         unblocked_at = - 1, start_time = 3, finish_time = - 1, wait_time = 3\<rparr>]
   \<and> occupants (fst (random_interrupts (Some intr_main) (\<lambda>k. 0) 2
        (cores ((sim_tick DISP_SRTCF intr_main (\<lambda>k. 0) ^^ 2) (sim_start 1 preset_small))) [] 0))
     = [\<lparr>tid = 2, arrival_time = 0, burst_time = 3, remaining = 1, state = ST_RUNNING,
          unblocked_at = - 1, start_time = 0, finish_time = - 1, wait_time = 0\<rparr>]
   \<and> list_all (\<lambda>T. 0 \<le> remaining T)
       (occupants (fst (random_interrupts (Some intr_main) (\<lambda>k. 0) 2
          (cores ((sim_tick DISP_SRTCF intr_main (\<lambda>k. 0) ^^ 2) (sim_start 1 preset_small))) [] 0)))"
    (is "?run = ?res \<and> ?post \<and> ?input \<and> ?reach")
proof -
  have run: "?run = ?res" by code_simp
  have input: ?input by code_simp
  have lo: "\<forall>T \<in> set (occupants
     [Some \<lparr>tid = 1, arrival_time = 0, burst_time = 9, remaining = 5, state = ST_RUNNING,
            unblocked_at = - 1, start_time = 3, finish_time = - 1, wait_time = 3\<rparr>,
      None]). 0 \<le> remaining T"
    by simp
  from srtcf_postcondition [OF lo run, where intr = intr_main and rand = "\<lambda>k. 0" and clock = 2
      and algo = DISP_SRTCF and n = 2 and ncores = 1 and workload = preset_small
      and wt = "[]" and k = 0]
  have "?post \<and> ?reach" by (simp add: list_all_iff)
  with run input show ?thesis by blast
qed

section \<open>Fields that only move one way\<close>

lemma evolves_closed: "tick_closed evolves now"
  unfolding tick_closed_def pre_closed_def
proof (intro conjI allI)
  show "reflp evolves" by (simp add: reflp_def evolves_def)
  show "transp evolves" unfolding transp_def evolves_def by auto
qed (simp_all add: evolves_def bound_thread_def blocked_def stepped_def finished_thread_def)

lemma tick_evolves:
  "rel_mset evolves (all_threads s) (all_threads (sim_tick algo intr rand s))"
  by (rule tick_rel [OF evolves_closed])

lemma ticks_evolves:
  "rel_mset evolves (all_threads s) (all_threads ((sim_tick algo intr rand ^^ k) s))"
proof (induction k)
  case 0
  show ?case by (simp add: rel_mset_same reflp_def evolves_def)
next
  case (Suc k)
  have "transp evolves" using evolves_closed [of 0] by (simp add: tick_closed_def pre_closed_def)
  from rel_mset_trans [OF this Suc tick_evolves [of "(sim_tick algo intr rand ^^ k) s"]]
  show ?case by simp
qed

lemma start_threads:
  "t \<in># all_threads (sim_start ncores workload) \<Longrightarrow> \<exists>t0 \<in> set workload. remaining t = remaining t0"
  by (auto simp: sim_start_eq all_threads_def occupants_replicate)

text \<open>
  Claim C3. For a workload whose threads have non-negative remaining time, between any
  tick boundary \<open>n\<close> and any later one \<open>n + k\<close> the threads correspond one to one, with
  the same id, and for every thread: \<open>remaining\<close> has not increased, \<open>wait_time\<close> has not
  decreased, and \<open>start_time\<close> and \<open>finish_time\<close>, if set (non-negative) at the earlier
  boundary, are unchanged at the later one.
\<close>

theorem monotone_fields:
  assumes "\<forall>t \<in> set workload. 0 \<le> remaining t"
  shows "rel_mset never_regresses
           (all_threads ((sim_tick algo intr rand ^^ n) (sim_start ncores workload)))
           (all_threads ((sim_tick algo intr rand ^^ (n + k)) (sim_start ncores workload)))"
proof -
  let ?s0 = "sim_start ncores workload"
  let ?sn = "(sim_tick algo intr rand ^^ n) ?s0"
  from assms have "\<forall>t \<in># all_threads ?s0. 0 \<le> remaining t"
    using start_threads by fastforce
  from rel_mset_ball [OF ticks_evolves [where s = ?s0 and algo = algo and intr = intr and rand = rand and k = n] this, of "\<lambda>t. 0 \<le> remaining t"]
  have nn: "\<forall>t \<in># all_threads ?sn. 0 \<le> remaining t" by (simp add: evolves_def)
  have "rel_mset evolves (all_threads ?sn) (all_threads ((sim_tick algo intr rand ^^ k) ?sn))"
    by (rule ticks_evolves)
  then have "rel_mset never_regresses (all_threads ?sn) (all_threads ((sim_tick algo intr rand ^^ k) ?sn))"
    by (rule multiset.rel_mono_strong) (use nn in \<open>auto simp: evolves_def never_regresses_def\<close>)
  then show ?thesis by (simp add: funpow_add add.commute)
qed

theorem monotone_fields_witness:
  "rel_mset never_regresses
     (all_threads ((sim_tick DISP_SRTCF intr_main (\<lambda>k. 0) ^^ 2) (sim_start 1 preset_small)))
     (all_threads ((sim_tick DISP_SRTCF intr_main (\<lambda>k. 0) ^^ (2 + 3)) (sim_start 1 preset_small)))"
proof -
  have "\<forall>t \<in> set preset_small. 0 \<le> remaining t"
    by (simp add: preset_small_def workload_add_def q_push_def q_init_def make_thread_def)
  then show ?thesis by (rule monotone_fields)
qed

section \<open>The simulation loop terminates\<close>

lemma rnd_lower: "a \<le> b \<Longrightarrow> a \<le> rnd rand k a b"
  using smod_int_compares(2) [of "int (rand k)" "b - a + 1"] by (simp add: rnd_def)

lemma interrupts_unblock:
  assumes cfg: "1 \<le> io_min c0" "io_min c0 \<le> io_max c0"
    and old: "\<forall>m \<in> set wt. now + 1 \<le> unblocked_at m"
    and run: "random_interrupts (Some c0) rand now cpu wt k = (cpu', wt', k')"
  shows "\<forall>m \<in> set wt'. now + 1 \<le> unblocked_at m"
proof -
  let ?P = "\<lambda>(i::nat) (acc :: CPU \<times> Queue \<times> nat). case acc of (c, w, k) \<Rightarrow>
      length c = length cpu \<and> (\<forall>m \<in> set w. now + 1 \<le> unblocked_at m)"
  have fold: "?P (length cpu) (fold (interrupt_core c0 rand now) [0..<length cpu] (cpu, wt, k))"
  proof (rule fold_upt_invariant [where P = ?P])
    show "?P 0 (cpu, wt, k)" using old by simp
  next
    fix i acc assume i: "i < length cpu" and inv: "?P i acc"
    obtain c w k where acc: "acc = (c, w, k)" by (cases acc)
    from inv acc have len: "length c = length cpu"
      and ub: "\<forall>m \<in> set w. now + 1 \<le> unblocked_at m" by simp_all
    from i len have ic: "i < length c" by simp
    from interrupt_core_cases [OF ic, of c0 rand now w k]
    consider (skip) k' where "interrupt_core c0 rand now i (c, w, k) = (c, w, k')"
      | (move) t where "c ! i = Some t"
          "interrupt_core c0 rand now i (c, w, k)
             = (c[i := None], w @ [blocked t (now + rnd rand (k + 1) (io_min c0) (io_max c0))], k + 2)"
      by blast
    then show "?P (Suc i) (interrupt_core c0 rand now i acc)"
    proof cases
      case skip
      with acc len ub show ?thesis by simp
    next
      case move
      from rnd_lower [OF cfg(2), of rand "k + 1"] cfg(1)
      have "1 \<le> rnd rand (k + 1) (io_min c0) (io_max c0)" by simp
      with move acc len ub show ?thesis by (simp add: blocked_def)
    qed
  qed
  show ?thesis
  proof (cases "enable_random c0")
    case False
    with run old show ?thesis by (auto simp: random_interrupts_def)
  next
    case True
    with run fold show ?thesis by (simp add: random_interrupts_def)
  qed
qed

lemma occupants_Nil: "occupants cpu = [] \<longleftrightarrow> (\<forall>c \<in> set cpu. c = None)"
proof (induction cpu)
  case Nil
  then show ?case by simp
next
  case (Cons c cs)
  then show ?case by (cases c) auto
qed

lemma fold_fixed: "(\<And>x. x \<in> set xs \<Longrightarrow> f x s = s) \<Longrightarrow> fold f xs s = s"
  by (induction xs) simp_all

lemma interrupts_idle:
  assumes "occupants cpu = []"
  shows "random_interrupts cfg rand now cpu wt k = (cpu, wt, k)"
proof -
  have "core_at cpu i = None" for i
    using assms nth_mem [of i cpu] by (auto simp: core_at_def occupants_Nil)
  then have "interrupt_core c0 rand now i (cpu, wt, k) = (cpu, wt, k)" for c0 i
    by (simp add: interrupt_core_def)
  then have "fold (interrupt_core c0 rand now) [0..<length cpu] (cpu, wt, k) = (cpu, wt, k)" for c0
    by (intro fold_fixed)
  then show ?thesis by (simp add: random_interrupts_def split: option.splits)
qed

lemma idle_when_empty:
  "cpu \<noteq> [] \<Longrightarrow> occupants cpu = [] \<Longrightarrow> cpu_any_idle cpu"
  by (cases cpu) (auto simp: cpu_any_idle_def cpu_first_idle_None_set occupants_Nil)

lemma same_work_closed: "pre_closed same_work now"
  by (simp add: pre_closed_def same_work_def reflp_def transp_def bound_thread_def blocked_def)

lemma work_nonneg: "\<forall>t \<in># M. 1 \<le> remaining t \<Longrightarrow> 0 \<le> work M"
  unfolding work_def by (induction M) auto

lemma work_stepped:
  assumes "\<forall>t \<in> set xs. 1 \<le> remaining t"
  shows "work (mset (filter (\<lambda>t. remaining t \<noteq> 0) (map stepped xs))) = work (mset xs) - int (length xs)"
    and "\<forall>t \<in> set (filter (\<lambda>t. remaining t \<noteq> 0) (map stepped xs)). 1 \<le> remaining t"
  using assms by (induction xs) (auto simp: work_def stepped_def)

lemma work_plus: "work (A + B) = work A + work B"
  by (simp add: work_def)

lemma same_work_eq:
  assumes "rel_mset same_work A B"
  shows "work B = work A" and "\<forall>t \<in># A. 1 \<le> remaining t \<Longrightarrow> \<forall>t \<in># B. 1 \<le> remaining t"
proof -
  from assms have "rel_mset (\<lambda>x y. remaining x = remaining y) A B"
    by (rule multiset.rel_mono_strong) (simp add: same_work_def)
  from rel_mset_image [OF this] show "work B = work A" by (simp add: work_def)
  assume "\<forall>t \<in># A. 1 \<le> remaining t"
  from rel_mset_ball [OF assms this, of "\<lambda>t. 1 \<le> remaining t"]
  show "\<forall>t \<in># B. 1 \<le> remaining t" by (simp add: same_work_def)
qed

lemma pending_decreases:
  assumes "ws \<noteq> []" "\<forall>t \<in> set ws. now + 1 \<le> unblocked_at t"
  shows "sum_list (map (\<lambda>t. nat (unblocked_at t - (now + 1))) ws)
         < sum_list (map (\<lambda>t. nat (unblocked_at t - now)) ws)"
  using assms
proof (induction ws)
  case Nil
  then show ?case by simp
next
  case (Cons w ws)
  have le: "sum_list (map (\<lambda>t. nat (unblocked_at t - (now + 1))) ws)
         \<le> sum_list (map (\<lambda>t. nat (unblocked_at t - now)) ws)"
    by (rule sum_list_mono) simp
  from Cons.prems have "nat (unblocked_at w - (now + 1)) < nat (unblocked_at w - now)" by simp
  with le show ?case by simp
qed

lemma sum_list_filter_le:
  fixes f :: "'a \<Rightarrow> nat"
  shows "sum_list (map f (filter P xs)) \<le> sum_list (map f xs)"
  by (induction xs) simp_all

lemma tick_progress:
  assumes cfg: "1 \<le> io_min intr" "io_min intr \<le> io_max intr" and inv: "sim_inv s"
  shows "sim_inv (sim_tick algo intr rand s)"
    and "\<not> sim_done (sim_tick algo intr rand s) \<Longrightarrow>
         (sim_tick algo intr rand s, s)
           \<in> measures [\<lambda>s. nat (work (live_threads s)), \<lambda>s. length (occupants (cores s)), pending]"
proof -
  let ?now = "sim_time s"
  obtain wl rd1 wt1 rd2 cp1 wt2 k cp2 rd3 cp3 cp4 fn where
    a: "workload_admit_tick (workload_q s) (ready_q s) ?now = (wl, rd1)" and
    b: "waiting_io_resolve (waiting_q s) rd1 ?now = (wt1, rd2)" and
    c: "random_interrupts (Some intr) rand ?now (cores s) wt1 (rand_calls s) = (cp1, wt2, k)" and
    d: "dispatch_get algo ?now cp1 rd2 = (cp2, rd3)" and
    e: "cpu_step cp2 ?now = (cp3, ?now + 1)" and
    f: "collect_completions (?now + 1) cp3 (finished_q s) = (cp4, fn)" and
    t: "sim_tick algo intr rand s =
       \<lparr>sim_time = ?now + 1, workload_q = wl, ready_q = bump_queue_wait rd3,
        waiting_q = wt2, finished_q = fn, cores = cp4, rand_calls = k\<rparr>"
    by (rule sim_tick_phases)
  let ?s' = "sim_tick algo intr rand s"
  from inv have live1: "\<forall>t \<in># live_threads s. 1 \<le> remaining t"
    and unb: "\<forall>t \<in> set (waiting_q s). ?now \<le> unblocked_at t"
    and ncores: "cores s \<noteq> []"
    by (simp_all add: sim_inv_def)
  note cl = same_work_closed [of ?now]
  from cl have refl: "reflp same_work" and trans: "transp same_work"
    by (simp_all add: pre_closed_def)
  let ?rest = "mset wl + mset (bump_queue_wait rd3) + mset wt2"
  from tick_chain [OF refl trans admit_rel [OF cl a] resolve_rel [OF cl b]
          conjunct2 [OF interrupts_rel [OF cl c]] dispatch_get_props(3) [OF d cl]
          bump_rel [OF cl], of "{#}"]
  have mid: "rel_mset same_work (live_threads s) (?rest + mset (occupants cp2))"
    by (simp add: live_threads_def)
  from same_work_eq [OF mid] live1 have
    wmid: "work (?rest + mset (occupants cp2)) = work (live_threads s)"
    and lmid: "\<forall>t \<in># ?rest + mset (occupants cp2). 1 \<le> remaining t"
    by simp_all
  from lmid have occ2: "\<forall>t \<in> set (occupants cp2). 1 \<le> remaining t" by simp
  from lmid have rest1: "\<forall>t \<in># ?rest. 1 \<le> remaining t" by simp
  from cpu_step_eq [OF e] have len3: "length cp3 = length cp2"
    and occ3: "occupants cp3 = map stepped (occupants cp2)" by simp_all
  from f have cp4: "cp4 = map keep_running cp3" by (simp add: collect_completions_eq)
  with occ3 have occ4: "occupants cp4 = filter (\<lambda>t. remaining t \<noteq> 0) (map stepped (occupants cp2))"
    by (simp add: occupants_keep_running)
  from interrupts_rel [OF cl c] have len1: "length cp1 = length (cores s)" by simp
  from dispatch_get_props(1) [OF d] have len2: "length cp2 = length cp1" .
  from cp4 len3 len2 len1 ncores have ne4: "cp4 \<noteq> []" and ne2: "cp2 \<noteq> []" by auto
  have live': "live_threads ?s' = ?rest + mset (occupants cp4)"
    by (simp add: t live_threads_def)
  from work_stepped [OF occ2] occ4 have
    w4: "work (mset (occupants cp4)) = work (mset (occupants cp2)) - int (length (occupants cp2))"
    and l4: "\<forall>t \<in> set (occupants cp4). 1 \<le> remaining t"
    by simp_all
  from w4 wmid have work': "work (live_threads ?s')
      = work (live_threads s) - int (length (occupants cp2))"
    by (simp add: live' work_plus)
  from rest1 l4 have live1': "\<forall>t \<in># live_threads ?s'. 1 \<le> remaining t"
    by (auto simp: live')
  from b unb have "\<forall>m \<in> set wt1. ?now + 1 \<le> unblocked_at m"
    by (fastforce simp: waiting_io_resolve_def)
  from interrupts_unblock [OF cfg this c] have unb': "\<forall>m \<in> set wt2. ?now + 1 \<le> unblocked_at m" .
  from live1' unb' ne4 show "sim_inv ?s'" by (simp add: sim_inv_def t)
  assume nd: "\<not> sim_done ?s'"
  show "(?s', s) \<in> measures [\<lambda>s. nat (work (live_threads s)), \<lambda>s. length (occupants (cores s)), pending]"
  proof (cases "occupants cp2 = []")
    case False
    then have "0 < int (length (occupants cp2))" by simp
    with work' work_nonneg [OF live1'] have
      "nat (work (live_threads ?s')) < nat (work (live_threads s))" by linarith
    then show ?thesis by simp
  next
    case True
    with work' have w: "work (live_threads ?s') = work (live_threads s)" by simp
    from True occ4 have o4: "occupants cp4 = []" by simp
    from dispatch_get_props(2) [OF d idle_when_empty [OF ne2 True]] have rd3: "rd3 = []" .
    from nd o4 rd3 have wt2: "wt2 \<noteq> []"
      by (auto simp: sim_done_def all_done_def t q_empty_def bump_queue_wait_def occupants_Nil
          list_all_iff split: if_splits)
    show ?thesis
    proof (cases "occupants (cores s) = []")
      case False
      with o4 w show ?thesis by (simp add: t)
    next
      case True
      from c interrupts_idle [OF True] have "wt2 = wt1" by simp
      with b have wt2_eq: "wt2 = filter (\<lambda>t. unblocked_at t \<noteq> ?now) (waiting_q s)"
        by (simp add: waiting_io_resolve_def)
      have "pending ?s' = sum_list (map (\<lambda>t. nat (unblocked_at t - (?now + 1))) wt2)"
        by (simp add: pending_def t)
      also from pending_decreases [OF wt2 unb']
      have "\<dots> < sum_list (map (\<lambda>t. nat (unblocked_at t - ?now)) wt2)" .
      also have "\<dots> \<le> pending s"
        unfolding pending_def wt2_eq by (rule sum_list_filter_le)
      finally have "pending ?s' < pending s" .
      with True o4 w show ?thesis by (simp add: t)
    qed
  qed
qed

lemma fold_workload_add:
  "fold (\<lambda>(tid0, arrival, burst) w. workload_add w tid0 arrival burst) specs w0
     = w0 @ map (\<lambda>(tid0, arrival, burst). make_thread tid0 arrival burst) specs"
  by (induction specs arbitrary: w0) (auto simp: workload_add_def q_push_def)

lemma build_workload_eq:
  "build_workload specs = map (\<lambda>(tid0, arrival, burst). make_thread tid0 arrival burst) specs"
  by (simp add: build_workload_def fold_workload_add q_init_def)

lemma sim_loop_terminates:
  assumes cfg: "1 \<le> io_min intr" "io_min intr \<le> io_max intr" and inv: "sim_inv s"
  shows "\<exists>n. sim_loop (sim_tick algo intr rand) s = Some ((sim_tick algo intr rand ^^ Suc n) s)
             \<and> sim_done ((sim_tick algo intr rand ^^ Suc n) s)
             \<and> (\<forall>m < n. \<not> sim_done ((sim_tick algo intr rand ^^ Suc m) s))"
proof -
  let ?tick = "sim_tick algo intr rand"
  let ?R = "measures [\<lambda>s. nat (work (live_threads s)), \<lambda>s. length (occupants (cores s)), pending]"
  have "wf ?R" by simp
  then show ?thesis using inv
  proof (induction s rule: wf_induct_rule)
    case (less s)
    note inv' = tick_progress(1) [OF cfg less.prems, of algo rand]
    show ?case
    proof (cases "sim_done (?tick s)")
      case True
      then have "sim_loop ?tick s = Some ((?tick ^^ Suc 0) s)"
        by (subst sim_loop.simps) simp
      with True show ?thesis by (intro exI [of _ 0]) simp
    next
      case False
      from tick_progress(2) [OF cfg less.prems False] have "(?tick s, s) \<in> ?R" .
      from less.IH [OF this inv'] obtain n where
        n: "sim_loop ?tick (?tick s) = Some ((?tick ^^ Suc n) (?tick s))"
           "sim_done ((?tick ^^ Suc n) (?tick s))"
           "\<forall>m < n. \<not> sim_done ((?tick ^^ Suc m) (?tick s))"
        by blast
      have shift: "(?tick ^^ Suc m) (?tick s) = (?tick ^^ Suc (Suc m)) s" for m
        by (simp add: funpow_swap1)
      from False n(1) have "sim_loop ?tick s = Some ((?tick ^^ Suc (Suc n)) s)"
        by (subst sim_loop.simps) (simp add: funpow_swap1)
      moreover from n(2) have "sim_done ((?tick ^^ Suc (Suc n)) s)" by (simp add: funpow_swap1)
      moreover have "\<forall>m < Suc n. \<not> sim_done ((?tick ^^ Suc m) s)"
      proof (intro allI impI)
        fix m assume m: "m < Suc n"
        show "\<not> sim_done ((?tick ^^ Suc m) s)"
        proof (cases m)
          case 0
          with False show ?thesis by simp
        next
          case (Suc m')
          with m n(3) have "\<not> sim_done ((?tick ^^ Suc m') (?tick s))" by simp
          with Suc show ?thesis by (simp add: funpow_swap1)
        qed
      qed
      ultimately show ?thesis by blast
    qed
  qed
qed

lemma sim_start_inv:
  assumes "\<forall>t \<in> set workload. 1 \<le> remaining t" "0 < ncores"
  shows "sim_inv (sim_start ncores workload)"
  using assms by (auto simp: sim_inv_def sim_start_eq live_threads_def occupants_replicate)

text \<open>
  Claim C6. For every workload built from finitely many (id, arrival, burst) entries
  with positive bursts, every interrupt configuration with \<open>0 < io_min \<le> io_max\<close>
  (whatever the probability, enabled or not), every sequence of values of \<^verbatim>\<open>rand()\<close>,
  each policy and at least one core (\<^verbatim>\<open>main\<close> never runs with fewer), the simulation
  loop terminates: there is a first tick after which Ready and Waiting are empty and
  every core is idle, and the loop returns the state of that tick.
\<close>

theorem simulation_terminates:
  assumes wl: "\<forall>(tid0, arrival, burst) \<in> set specs. 0 < burst"
    and cfg: "0 < io_min intr" "io_min intr \<le> io_max intr"
    and nc: "0 < ncores"
  shows "\<exists>n s. simulate algo intr rand ncores (build_workload specs) = Some s
           \<and> s = (sim_tick algo intr rand ^^ Suc n) (sim_start ncores (build_workload specs))
           \<and> ready_q s = [] \<and> waiting_q s = [] \<and> (\<forall>c \<in> set (cores s). c = None)
           \<and> (\<forall>m < n. \<not> sim_done
                 ((sim_tick algo intr rand ^^ Suc m) (sim_start ncores (build_workload specs))))"
proof -
  from wl have "\<forall>t \<in> set (build_workload specs). 1 \<le> remaining t"
    by (auto simp: build_workload_eq make_thread_def)
  from sim_start_inv [OF this nc] have inv: "sim_inv (sim_start ncores (build_workload specs))" .
  from cfg have "1 \<le> io_min intr" by simp
  from sim_loop_terminates [OF this cfg(2) inv, of algo rand] obtain n where
    n: "sim_loop (sim_tick algo intr rand) (sim_start ncores (build_workload specs))
          = Some ((sim_tick algo intr rand ^^ Suc n) (sim_start ncores (build_workload specs)))"
       "sim_done ((sim_tick algo intr rand ^^ Suc n) (sim_start ncores (build_workload specs)))"
       "\<forall>m < n. \<not> sim_done
           ((sim_tick algo intr rand ^^ Suc m) (sim_start ncores (build_workload specs)))"
    by blast
  from n(2) have "ready_q ((sim_tick algo intr rand ^^ Suc n) (sim_start ncores (build_workload specs))) = []"
    and "waiting_q ((sim_tick algo intr rand ^^ Suc n) (sim_start ncores (build_workload specs))) = []"
    and "\<forall>c \<in> set (cores ((sim_tick algo intr rand ^^ Suc n) (sim_start ncores (build_workload specs)))). c = None"
    by (auto simp: sim_done_def all_done_def q_empty_def list_all_iff split: if_splits)
  with n(1,3) show ?thesis unfolding simulate_def by blast
qed

theorem simulation_terminates_witness:
  "simulate DISP_SRTCF \<lparr>enable_random = True, pct_io = 10, io_min = 2, io_max = 6\<rparr> (\<lambda>k. k) 1
     (build_workload [(1, 0, 5), (2, 0, 3), (3, 2, 6), (4, 4, 4)]) \<noteq> None"
proof -
  have "\<forall>(tid0, arrival, burst) \<in> set [(1, 0, 5), (2, 0, 3), (3, 2, 6), (4 :: int, 4 :: int, 4 :: int)].
          0 < burst"
    by simp
  from simulation_terminates [OF this,
      where intr = "\<lparr>enable_random = True, pct_io = 10, io_min = 2, io_max = 6\<rparr>"
        and ncores = 1 and algo = DISP_SRTCF and rand = "\<lambda>k. k"]
  show ?thesis by auto
qed

section \<open>Scenarios: runs of the simulation on concrete workloads\<close>

lemma random_interrupts_disabled:
  "\<not> enable_random intr \<Longrightarrow>
   random_interrupts (Some intr) rand now cpu waiting k = (cpu, waiting, k)"
  by (simp add: random_interrupts_def)

lemma sim_tick_disabled:
  "\<not> enable_random intr \<Longrightarrow> sim_tick algo intr rand = sim_tick algo intr_main (\<lambda>k. 0)"
  by (rule ext) (simp add: sim_tick_def random_interrupts_disabled intr_main_def)

lemma simulate_disabled:
  "\<not> enable_random intr \<Longrightarrow>
   simulate algo intr rand ncores workload = simulate algo intr_main (\<lambda>k. 0) ncores workload"
  by (simp add: simulate_def sim_tick_disabled)

text \<open>
  Claim C4. One core, FIFO, interrupts disabled, the workload A(0,5), B(0,3), C(2,6),
  D(4,4) (thread ids 1 to 4): the loop is left at clock 18 with the threads finished in
  the order A, B, C, D at 5, 8, 14 and 18. Each thread starts when its predecessor in
  arrival order finishes, and its finish time is its start time plus its burst: it is
  bound once and runs to completion. All other queues are empty and the core is idle.
\<close>

theorem fifo_scenario:
  assumes "\<not> enable_random intr"
  shows "map_option
           (\<lambda>s. (sim_time s,
                 map (\<lambda>t. (tid t, start_time t, finish_time t, state t)) (finished_q s),
                 workload_q s, ready_q s, waiting_q s, cores s))
           (simulate DISP_FIFO intr rand 1 preset_small)
         = Some (18, [(1, 0, 5, ST_FINISHED), (2, 5, 8, ST_FINISHED),
                      (3, 8, 14, ST_FINISHED), (4, 14, 18, ST_FINISHED)],
                 [], [], [], [None])"
proof -
  have "map_option
           (\<lambda>s. (sim_time s,
                 map (\<lambda>t. (tid t, start_time t, finish_time t, state t)) (finished_q s),
                 workload_q s, ready_q s, waiting_q s, cores s))
           (simulate DISP_FIFO intr_main (\<lambda>k. 0) 1 preset_small)
         = Some (18, [(1, 0, 5, ST_FINISHED), (2, 5, 8, ST_FINISHED),
                      (3, 8, 14, ST_FINISHED), (4, 14, 18, ST_FINISHED)],
                 [], [], [], [None])"
    by code_simp
  with assms show ?thesis by (simp add: simulate_disabled)
qed

theorem fifo_scenario_witness:
  "map (\<lambda>t. (tid t, finish_time t))
     (finished_q (the (simulate DISP_FIFO intr_main (\<lambda>k. 0) 1 preset_small)))
   = [(1, 5), (2, 8), (3, 14), (4, 18)]"
proof -
  have "\<not> enable_random intr_main" by (simp add: intr_main_def)
  from fifo_scenario [OF this, of "\<lambda>k. 0"] show ?thesis by auto
qed

text \<open>
  Claim C5. One core, non-preemptive SJF, interrupts disabled, the same workload: the
  threads finish in the order B, A, D, C at 3, 8, 12 and 18. B (burst 3) is chosen over
  A (burst 5) at tick 0, A over C at tick 3, D (burst 4) over C (burst 6) at tick 8; each
  finish time is the start time plus the burst, so no bound thread is preempted.
\<close>

theorem sjf_scenario:
  assumes "\<not> enable_random intr"
  shows "map_option
           (\<lambda>s. (sim_time s,
                 map (\<lambda>t. (tid t, start_time t, finish_time t, state t)) (finished_q s),
                 workload_q s, ready_q s, waiting_q s, cores s))
           (simulate DISP_SJF intr rand 1 preset_small)
         = Some (18, [(2, 0, 3, ST_FINISHED), (1, 3, 8, ST_FINISHED),
                      (4, 8, 12, ST_FINISHED), (3, 12, 18, ST_FINISHED)],
                 [], [], [], [None])"
proof -
  have "map_option
           (\<lambda>s. (sim_time s,
                 map (\<lambda>t. (tid t, start_time t, finish_time t, state t)) (finished_q s),
                 workload_q s, ready_q s, waiting_q s, cores s))
           (simulate DISP_SJF intr_main (\<lambda>k. 0) 1 preset_small)
         = Some (18, [(2, 0, 3, ST_FINISHED), (1, 3, 8, ST_FINISHED),
                      (4, 8, 12, ST_FINISHED), (3, 12, 18, ST_FINISHED)],
                 [], [], [], [None])"
    by code_simp
  with assms show ?thesis by (simp add: simulate_disabled)
qed

theorem sjf_scenario_witness:
  "map (\<lambda>t. (tid t, finish_time t))
     (finished_q (the (simulate DISP_SJF intr_main (\<lambda>k. 0) 1 preset_small)))
   = [(2, 3), (1, 8), (4, 12), (3, 18)]"
proof -
  have "\<not> enable_random intr_main" by (simp add: intr_main_def)
  from sjf_scenario [OF this, of "\<lambda>k. 0"] show ?thesis by auto
qed

text \<open>
  Claim C7. The test that leaves the loop reads Ready, Waiting and the cores only: it
  gives the same answer whatever the workload queue holds. With one core, interrupts
  disabled and the workload of thread 1 (arrival 0, burst 1) and thread 2 (arrival 10,
  burst 3), under each of the three policies the loop is left after the first tick, at
  clock 1: thread 1 is finished, and thread 2 is still in the workload queue, in state
  New, never admitted to Ready and never finished.
\<close>

theorem loop_exit_ignores_workload:
  assumes "\<not> enable_random intr"
  shows "sim_done (s\<lparr>workload_q := w\<rparr>) = sim_done s
         \<and> map_option
             (\<lambda>s. (sim_time s, map tid (finished_q s), workload_q s, ready_q s, waiting_q s,
                   cores s))
             (simulate algo intr rand 1 (workload_add (workload_add q_init 1 0 1) 2 10 3))
           = Some (1, [1], [make_thread 2 10 3], [], [], [None])"
proof -
  have "map_option
          (\<lambda>s. (sim_time s, map tid (finished_q s), workload_q s, ready_q s, waiting_q s,
                cores s))
          (simulate algo intr_main (\<lambda>k. 0) 1 (workload_add (workload_add q_init 1 0 1) 2 10 3))
        = Some (1, [1], [make_thread 2 10 3], [], [], [None])"
    by (induct algo; code_simp)
  with assms show ?thesis by (simp add: simulate_disabled sim_done_def)
qed

theorem loop_exit_ignores_workload_witness:
  "map tid (workload_q (the (simulate DISP_SRTCF intr_main (\<lambda>k. 0) 1
      (workload_add (workload_add q_init 1 0 1) 2 10 3)))) = [2]"
proof -
  have "\<not> enable_random intr_main" by (simp add: intr_main_def)
  from loop_exit_ignores_workload
    [OF this, where s = "sim_start 1 []" and w = "[]" and algo = DISP_SRTCF and rand = "\<lambda>k. 0"]
  show ?thesis
    by (auto simp: make_thread_def)
qed


end
